theory Spec2Isabelle
  imports Complex_Main
begin

section \<open>The board: \<open>action2D\<close>, \<open>ActionPrior\<close> and \<open>GameState\<close>\<close>

text \<open>
  An action is a pair of C \<open>int\<close> coordinates. No arithmetic of the program comes near the
  limits of a 32-bit integer on them, so they are modelled as \<open>int\<close>.
\<close>

record action2D =
  actionX :: int
  actionY :: int

text \<open>
  \<open>probability\<close> is a \<open>float\<close> in the source. The only values the program stores there are
  products of 1, 2, 2 and 1.5, which binary floating point represents exactly; it is
  modelled as a real number.
\<close>

record ActionPrior =
  action :: action2D
  probability :: real

text \<open>
  \<open>signed char board[11][11]\<close> is a function of the row and the column index; only the
  indices 0 to 10 belong to the array. A cell holds 0 (empty), 1 (red) or -1 (black).
\<close>

record GameState =
  board :: "int \<Rightarrow> int \<Rightarrow> int"
  totalPieces :: int

text \<open>The constructor \<open>GameState::GameState()\<close>: a zeroed board and no pieces.\<close>

definition GameState_init :: GameState where
  "GameState_init = \<lparr>board = (\<lambda>i j. 0), totalPieces = 0\<rparr>"

definition boardIsFull :: "GameState \<Rightarrow> bool" where
  "boardIsFull s = (totalPieces s = 121)"

text \<open>
  \<open>totalPieces % 2 == 0\<close>: C truncates the quotient and HOL floors it, but the remainder is
  zero for the same integers under both conventions.
\<close>

definition redPlaysNext :: "GameState \<Rightarrow> bool" where
  "redPlaysNext s = (totalPieces s mod 2 = 0)"

definition redPlayedLast :: "GameState \<Rightarrow> bool" where
  "redPlayedLast s = (\<not> redPlaysNext s)"

text \<open>
  \<open>GameState::plays(action2D)\<close> mutates the object and returns a flag; the model returns
  the flag together with the object after the call.
\<close>

definition plays :: "GameState \<Rightarrow> action2D \<Rightarrow> bool \<times> GameState" where
  "plays s a =
     (if actionX a \<ge> 0 \<and> actionX a < 11 \<and> actionY a \<ge> 0 \<and> actionY a < 11
      then (True,
            s\<lparr>board := (board s)(actionX a := (board s (actionX a))
                           (actionY a := (if totalPieces s mod 2 = 0 then 1 else - 1))),
              totalPieces := totalPieces s + 1\<rparr>)
      else (False, s))"

section \<open>The win check: \<open>findLinkedNodes\<close>, \<open>dfs\<close>, \<open>oneSideTest\<close>\<close>

text \<open>
  \<open>findLinkedNodes\<close> is six copies of one block: under a guard on the coordinates, look the
  neighbour \<open>tmp\<close> up in \<open>pieceList\<close> with \<open>std::find\<close>; when it is there, append it to
  \<open>result\<close> and erase the occurrence found (the first one). \<open>linkIfPresent\<close> is that block,
  on the pair of \<open>result\<close> and \<open>pieceList\<close>.
\<close>

definition linkIfPresent ::
  "bool \<Rightarrow> action2D \<Rightarrow> action2D list \<times> action2D list \<Rightarrow> action2D list \<times> action2D list" where
  "linkIfPresent guard tmp rp =
     (case rp of (result, pieceList) \<Rightarrow>
        if guard \<and> tmp \<in> set pieceList
        then (result @ [tmp], remove1 tmp pieceList)
        else (result, pieceList))"

text \<open>
  The six blocks in the order of the source (the innermost application runs first). The
  function returns \<open>result\<close> and, since \<open>pieceList\<close> is passed by reference, the list that
  is left.
\<close>

definition findLinkedNodes :: "action2D \<Rightarrow> action2D list \<Rightarrow> action2D list \<times> action2D list" where
  "findLinkedNodes a pieceList =
     (let col = actionY a; row = actionX a in
      linkIfPresent (row < 10 \<and> col > 0) \<lparr>actionX = row + 1, actionY = col - 1\<rparr>
     (linkIfPresent (row < 10) \<lparr>actionX = row + 1, actionY = col\<rparr>
     (linkIfPresent (row > 0 \<and> col < 10) \<lparr>actionX = row - 1, actionY = col + 1\<rparr>
     (linkIfPresent (row > 0) \<lparr>actionX = row - 1, actionY = col\<rparr>
     (linkIfPresent (col < 10) \<lparr>actionX = row, actionY = col + 1\<rparr>
     (linkIfPresent (col > 0) \<lparr>actionX = row, actionY = col - 1\<rparr>
        ([], pieceList)))))))"

lemma linkIfPresent_size:
  "length (fst (linkIfPresent g t rp)) + length (snd (linkIfPresent g t rp))
     = length (fst rp) + length (snd rp)"
proof (cases rp)
  case (Pair result pieceList)
  have "t \<in> set pieceList \<Longrightarrow> Suc (length pieceList - Suc 0) = length pieceList"
    using length_pos_if_in_set [of t pieceList] by simp
  with Pair show ?thesis
    by (simp add: linkIfPresent_def length_remove1)
qed

lemma findLinkedNodes_size:
  "length (fst (findLinkedNodes a pl)) + length (snd (findLinkedNodes a pl)) = length pl"
  by (simp add: findLinkedNodes_def Let_def linkIfPresent_size)

lemma dfs_measure_step:
  assumes "frontier \<noteq> []" and "findLinkedNodes node pieceList = (newFrontier, pieceList')"
  shows "length newFrontier + length pieceList' = length pieceList"
    and "length (butlast frontier @ newFrontier) + length pieceList'
           < length frontier + length pieceList"
proof -
  from assms(2) show m: "length newFrontier + length pieceList' = length pieceList"
    using findLinkedNodes_size [of node pieceList] by simp
  from assms(1) have "length (butlast frontier) < length frontier"
    by simp
  with m show "length (butlast frontier @ newFrontier) + length pieceList'
           < length frontier + length pieceList"
    by simp
qed

text \<open>
  \<open>dfs\<close> pops the back of \<open>frontier\<close>, answers \<open>true\<close> when that cell lies on the target
  edge, and otherwise moves the cell's neighbours from \<open>pieceList\<close> to the back of
  \<open>frontier\<close> and calls itself. Both vectors are passed by reference, but the callers use
  the returned flag only. The recursion is not structural: the measure is the length of
  \<open>frontier\<close> plus the length of \<open>pieceList\<close>.
\<close>

function (domintros) dfs :: "action2D list \<Rightarrow> action2D list \<Rightarrow> bool \<Rightarrow> bool" where
  "dfs frontier pieceList isRed =
     (if frontier = [] then False
      else
        let node = last frontier; frontier' = butlast frontier in
        if isRed \<and> actionX node = 10 then True
        else if \<not> isRed \<and> actionY node = 10 then True
        else
          (case findLinkedNodes node pieceList of
             (newFrontier, pieceList') \<Rightarrow> dfs (frontier' @ newFrontier) pieceList' isRed))"
  by pat_completeness auto
termination
proof (relation "measure (\<lambda>(frontier, pieceList, isRed). length frontier + length pieceList)")
  show "wf (measure (\<lambda>(frontier, pieceList, isRed). length frontier + length pieceList))"
    by simp
next
  fix frontier pieceList :: "action2D list" and isRed :: bool
  fix node frontier' newFrontier pieceList'
  assume "frontier \<noteq> []" and "frontier' = butlast frontier"
    and "(newFrontier, pieceList') = findLinkedNodes node pieceList"
  then show "((frontier' @ newFrontier, pieceList', isRed), frontier, pieceList, isRed)
      \<in> measure (\<lambda>(frontier, pieceList, isRed). length frontier + length pieceList)"
    using dfs_measure_step(2) [of frontier node pieceList newFrontier pieceList'] by simp
qed

declare dfs.simps [simp del]

text \<open>
  \<open>oneSideTest\<close>: the cells of the side in row-major order; fewer than 11 of them is no
  win; otherwise the cells on the starting edge (row 0 for red, column 0 for black) are the
  first frontier, the others the traversable pool.
\<close>

definition onStartEdge :: "bool \<Rightarrow> action2D \<Rightarrow> bool" where
  "onStartEdge isRed a = ((isRed \<and> actionX a = 0) \<or> (\<not> isRed \<and> actionY a = 0))"

definition pieceLocs :: "GameState \<Rightarrow> bool \<Rightarrow> action2D list" where
  "pieceLocs s isRed =
     [\<lparr>actionX = i, actionY = j\<rparr>. i \<leftarrow> [0..10], j \<leftarrow> [0..10],
        board s i j = (if isRed then 1 else - 1)]"

definition oneSideTest :: "GameState \<Rightarrow> bool \<Rightarrow> bool" where
  "oneSideTest s isRed =
     (let locs = pieceLocs s isRed; piece_count = int (length locs) in
      if piece_count < 11 then False
      else
        let startingLocs = filter (onStartEdge isRed) locs;
            pieceList = filter (\<lambda>a. \<not> onStartEdge isRed a) locs
        in if length startingLocs = 0 then False
           else dfs startingLocs pieceList isRed)"

definition checkTermination :: "GameState \<Rightarrow> int" where
  "checkTermination s =
     (if oneSideTest s True then 1 else if oneSideTest s False then - 1 else 0)"

text \<open>
  \<open>setState\<close> copies an 11 by 11 array into the board and counts its non-zero cells.
\<close>

definition setState :: "GameState \<Rightarrow> (int \<Rightarrow> int \<Rightarrow> int) \<Rightarrow> GameState" where
  "setState s b =
     s\<lparr>board := (\<lambda>i j. if 0 \<le> i \<and> i < 11 \<and> 0 \<le> j \<and> j < 11 then b i j else board s i j),
       totalPieces := int (length [b i j. i \<leftarrow> [0..10], j \<leftarrow> [0..10], b i j \<noteq> 0])\<rparr>"

section \<open>Candidate moves: \<open>computeRangeBound\<close> and \<open>outputActionPrior\<close>\<close>

text \<open>
  The four bounds are stored in \<open>char\<close>s. \<open>to_char\<close> is the narrowing of an \<open>int\<close> to a
  signed 8-bit \<open>char\<close>; it is the identity on -128..127, so on every bound computed for
  an action inside the grid.
\<close>

definition to_char :: "int \<Rightarrow> int" where
  "to_char v = (v + 128) mod 256 - 128"

definition computeRangeBound :: "action2D \<Rightarrow> int \<Rightarrow> int \<times> int \<times> int \<times> int" where
  "computeRangeBound a hexRange =
     (to_char (max 0 (actionX a - hexRange)),
      to_char (min 10 (actionX a + hexRange)),
      to_char (max 0 (actionY a - hexRange)),
      to_char (min 10 (actionY a + hexRange)))"

text \<open>
  The body of the lambda that \<open>outputActionPrior\<close> runs on each candidate. As in the source,
  the bounds \<open>u1\<close>, \<open>b1\<close> computed from \<open>actionY\<close> range over the first (row) index of
  \<open>board\<close> and \<open>l1\<close>, \<open>r1\<close> computed from \<open>actionX\<close> over the second. The two loops
  read \<open>board[i][j]\<close> for every row of the one range and every column of the other. A
  read with an index outside 0..10 is outside the array, which is undefined behaviour:
  the result is then \<open>None\<close>.
\<close>

definition heuristicPrior :: "GameState \<Rightarrow> action2D \<Rightarrow> ActionPrior option" where
  "heuristicPrior s a =
     (case computeRangeBound a 1 of (l1, r1, u1, b1) \<Rightarrow>
        if [(i, j). i \<leftarrow> [u1..b1], j \<leftarrow> [l1..r1], i < 0 \<or> 10 < i \<or> j < 0 \<or> 10 < j] = []
        then
          let cells = [board s i j. i \<leftarrow> [u1..b1], j \<leftarrow> [l1..r1]];
              redPiece = int (length (filter (\<lambda>v. v = 1) cells));
              blackPiece = int (length (filter (\<lambda>v. v = - 1) cells));
              m1 = (if (redPiece \<ge> 1 \<and> blackPiece > 1) \<or> (redPiece > 1 \<and> blackPiece \<ge> 1)
                    then 2 else 1);
              m2 = (if redPiece + blackPiece \<ge> 4 then 2 else 1);
              m3 = (if actionX a \<ge> 2 \<and> actionX a \<le> 9 \<and> actionY a \<ge> 2 \<and> actionY a \<le> 9
                    then 3 / 2 else 1)
          in Some \<lparr>action = a, probability = 1 * m1 * m2 * m3\<rparr>
        else None)"

text \<open>
  The border width chosen from the number of pieces on the board. \<open>outputActionPrior\<close>
  collects the candidates and then runs the lambda on each of them in turn; it has a
  result when every run has one.
\<close>

definition borderRange :: "int \<Rightarrow> int" where
  "borderRange n = (if n \<le> 4 then 3 else if n \<le> 8 then 2 else if n \<le> 12 then 1 else 0)"

definition outputActionPrior :: "GameState \<Rightarrow> bool \<Rightarrow> action2D \<Rightarrow> ActionPrior list option" where
  "outputActionPrior s forcedFirst forcedPlay =
     (let actions =
        (if totalPieces s = 0 \<and> forcedFirst then [forcedPlay]
         else
           let range = borderRange (totalPieces s) in
           [\<lparr>actionX = i, actionY = j\<rparr>.
              i \<leftarrow> [0 + range..11 - range - 1], j \<leftarrow> [0 + range..11 - range - 1],
              board s i j = 0])
      in those (map (heuristicPrior s) actions))"

section \<open>Floating-point numbers: \<open>float\<close> and \<open>double\<close>\<close>

text \<open>
  The program computes with \<open>float\<close> and \<open>double\<close>, the formats binary32 and binary64 of
  IEEE 754, rounding to nearest with ties to even; each operation is rounded to the type
  that C++ gives it and is not carried out in a wider format. A value of either type is
  a finite number, one of the two infinities or NaN. The sign of a zero is not kept: the
  only operation here that could tell the two zeros apart is a division by zero, and
  every divisor of the program is the conversion of an integer, for which a zero is the
  positive one.
\<close>

datatype fp = Fin real | PInf | NInf | NaN

text \<open>
  \<open>pow2 k\<close> is 2 to the power \<open>k\<close>, and \<open>rne\<close> rounds a real number to the nearest integer,
  a tie to the even one. \<open>round_fp p emin emax\<close> is the rounding of IEEE 754 to the nearest
  number with \<open>p\<close> significant bits and an exponent from \<open>emin\<close> to \<open>emax\<close>, ties to even:
  the number is rounded to a multiple of the unit in the last place of its binade (of the
  binade of \<open>emin\<close> for a subnormal number), and to an infinity when that multiple is
  beyond the largest finite number of the format. \<open>to_float\<close> is the rounding to binary32,
  \<open>to_double\<close> the rounding to binary64.
\<close>

definition pow2 :: "int \<Rightarrow> real" where
  "pow2 k = (if 0 \<le> k then 2 ^ nat k else 1 / 2 ^ nat (- k))"

definition rne :: "real \<Rightarrow> int" where
  "rne y =
     (let f = \<lfloor>y\<rfloor>; d = y - of_int f
      in if d < 1 / 2 then f else if 1 / 2 < d then f + 1 else if even f then f else f + 1)"

definition round_val :: "nat \<Rightarrow> int \<Rightarrow> real \<Rightarrow> real" where
  "round_val p emin x =
     (let e = max emin \<lfloor>log 2 x\<rfloor>; q = pow2 (e - int p + 1)
      in of_int (rne (x / q)) * q)"

definition round_mag :: "nat \<Rightarrow> int \<Rightarrow> int \<Rightarrow> real \<Rightarrow> fp" where
  "round_mag p emin emax x =
     (let y = round_val p emin x
      in if (2 - pow2 (1 - int p)) * pow2 emax < y then PInf else Fin y)"

fun fneg :: "fp \<Rightarrow> fp" where
  "fneg (Fin x) = Fin (- x)"
| "fneg PInf = NInf"
| "fneg NInf = PInf"
| "fneg NaN = NaN"

definition round_fp :: "nat \<Rightarrow> int \<Rightarrow> int \<Rightarrow> real \<Rightarrow> fp" where
  "round_fp p emin emax x =
     (if x = 0 then Fin 0
      else if 0 < x then round_mag p emin emax x
      else fneg (round_mag p emin emax (- x)))"

definition to_float :: "real \<Rightarrow> fp" where
  "to_float = round_fp 24 (- 126) 127"

definition to_double :: "real \<Rightarrow> fp" where
  "to_double = round_fp 53 (- 1022) 1023"

text \<open>
  The conversion of a \<open>double\<close> to \<open>float\<close>, which C++ applies when a \<open>double\<close> is passed
  for a \<open>float\<close> parameter or stored in a \<open>float\<close> field. A \<open>float\<close> is a \<open>double\<close> as it is.
\<close>

fun narrow :: "fp \<Rightarrow> fp" where
  "narrow (Fin x) = to_float x"
| "narrow v = v"

text \<open>
  The arithmetic operations. The first argument is the rounding of the type in which C++
  carries out the operation: \<open>to_float\<close> when both operands are \<open>float\<close>, \<open>to_double\<close> when
  one of them is a \<open>double\<close>. An operation on finite numbers rounds the exact result once;
  the values for infinities and NaN are those of IEEE 754. In \<open>fdiv\<close> a divisor that is
  zero is the positive zero.
\<close>

fun fadd :: "(real \<Rightarrow> fp) \<Rightarrow> fp \<Rightarrow> fp \<Rightarrow> fp" where
  "fadd r NaN b = NaN"
| "fadd r a NaN = NaN"
| "fadd r (Fin x) (Fin y) = r (x + y)"
| "fadd r PInf NInf = NaN"
| "fadd r NInf PInf = NaN"
| "fadd r PInf b = PInf"
| "fadd r NInf b = NInf"
| "fadd r a b = b"

definition fsub :: "(real \<Rightarrow> fp) \<Rightarrow> fp \<Rightarrow> fp \<Rightarrow> fp" where
  "fsub r a b = fadd r a (fneg b)"

fun fmul :: "(real \<Rightarrow> fp) \<Rightarrow> fp \<Rightarrow> fp \<Rightarrow> fp" where
  "fmul r NaN b = NaN"
| "fmul r a NaN = NaN"
| "fmul r (Fin x) (Fin y) = r (x * y)"
| "fmul r (Fin x) PInf = (if x = 0 then NaN else if 0 < x then PInf else NInf)"
| "fmul r (Fin x) NInf = (if x = 0 then NaN else if 0 < x then NInf else PInf)"
| "fmul r PInf (Fin y) = (if y = 0 then NaN else if 0 < y then PInf else NInf)"
| "fmul r NInf (Fin y) = (if y = 0 then NaN else if 0 < y then NInf else PInf)"
| "fmul r PInf PInf = PInf"
| "fmul r PInf NInf = NInf"
| "fmul r NInf PInf = NInf"
| "fmul r NInf NInf = PInf"

fun fdiv :: "(real \<Rightarrow> fp) \<Rightarrow> fp \<Rightarrow> fp \<Rightarrow> fp" where
  "fdiv r NaN b = NaN"
| "fdiv r a NaN = NaN"
| "fdiv r (Fin x) (Fin y) =
     (if y = 0 then (if x = 0 then NaN else if 0 < x then PInf else NInf) else r (x / y))"
| "fdiv r (Fin x) b = Fin 0"
| "fdiv r PInf (Fin y) = (if 0 \<le> y then PInf else NInf)"
| "fdiv r NInf (Fin y) = (if 0 \<le> y then NInf else PInf)"
| "fdiv r a b = NaN"

text \<open>
  \<open>sqrt\<close> on a \<open>double\<close>, which IEEE 754 requires to be correctly rounded, and the
  comparison \<open><\<close>, which is false as soon as one side is NaN.
\<close>

fun fsqrt :: "fp \<Rightarrow> fp" where
  "fsqrt (Fin x) = (if x < 0 then NaN else to_double (sqrt x))"
| "fsqrt PInf = PInf"
| "fsqrt NInf = NaN"
| "fsqrt NaN = NaN"

fun fless :: "fp \<Rightarrow> fp \<Rightarrow> bool" where
  "fless NaN b = False"
| "fless a NaN = False"
| "fless (Fin x) (Fin y) = (x < y)"
| "fless PInf b = False"
| "fless a NInf = False"
| "fless a b = True"

section \<open>The search tree: \<open>MCTSNode\<close>\<close>

text \<open>
  The nodes of the tree live in a store, a list of node objects; the address of a node is
  its index. A pointer is an address, \<open>nullptr\<close> is \<open>None\<close>. \<open>_children\<close>, an
  \<open>unordered_map\<close> from actions to owning pointers, is an association list with distinct
  keys whose order stands for the iteration order of the map. The \<open>float\<close> fields hold
  values of \<open>fp\<close>. The field \<open>_isRed\<close> is \<open>isRedNode\<close>, apart from the parameter \<open>isRed\<close> of
  the win check.
\<close>

type_synonym addr = nat

record MCTSNode =
  parent :: "addr option"
  children :: "(action2D \<times> addr) list"
  nVisits :: int
  quality :: fp
  uct :: fp
  heuristicFactor :: fp
  isRedNode :: bool

type_synonym store = "MCTSNode list"

text \<open>
  Following a pointer: \<open>None\<close> when the address is not that of an object.
\<close>

definition deref :: "store \<Rightarrow> addr \<Rightarrow> MCTSNode option" where
  "deref h a = (if a < length h then Some (h ! a) else None)"

text \<open>
  The constructor \<open>MCTSNode(node, heuristic, isRed)\<close>.
\<close>

definition MCTSNode_new :: "addr option \<Rightarrow> fp \<Rightarrow> bool \<Rightarrow> MCTSNode" where
  "MCTSNode_new node heuristic red =
     \<lparr>parent = node, children = [], nVisits = 0, quality = Fin 0, uct = Fin 0,
      heuristicFactor = heuristic, isRedNode = red\<rparr>"

text \<open>
  \<open>evaluation\<close> reads the visit count of the parent through \<open>_parent\<close>, stores the
  exploration term in \<open>_uct\<close> and returns quality plus that term. The result is \<open>None\<close> when
  the node or its parent is not there (the program would dereference an invalid pointer).
  The product of the two \<open>float\<close>s is a \<open>float\<close>; the product with the square root and the
  quotient by \<open>1 + _nVisits\<close> are \<open>double\<close>s; the quotient is narrowed when it is stored in
  \<open>_uct\<close>, and the sum is a \<open>float\<close>. \<open>lg\<close> stands for \<open>log\<close> of the C library on the \<open>double\<close>
  of an \<open>int\<close>: the library is not part of the program, and how it rounds is left open.
\<close>

definition evaluation :: "(int \<Rightarrow> fp) \<Rightarrow> store \<Rightarrow> addr \<Rightarrow> fp \<Rightarrow> (store \<times> fp) option" where
  "evaluation lg h n xplorCoeff =
     (case deref h n of
        None \<Rightarrow> None
      | Some nd \<Rightarrow>
          (case parent nd of
             None \<Rightarrow> None
           | Some p \<Rightarrow>
               (case deref h p of
                  None \<Rightarrow> None
                | Some pn \<Rightarrow>
                    let u = narrow
                              (fdiv to_double
                                 (fmul to_double (fmul to_float (heuristicFactor nd) xplorCoeff)
                                    (fsqrt (fmul to_double (Fin 2) (lg (nVisits pn)))))
                                 (to_double (of_int (1 + nVisits nd))))
                    in Some (h[n := nd\<lparr>uct := u\<rparr>], fadd to_float (quality nd) u))))"

text \<open>
  \<open>update\<close> on the node object: one more visit, and the running mean moves towards
  \<open>result\<close>. The difference, its quotient by the visit count converted to \<open>float\<close>, and the
  sum are \<open>float\<close> operations.
\<close>

definition update :: "MCTSNode \<Rightarrow> fp \<Rightarrow> MCTSNode" where
  "update nd result =
     (let v = nVisits nd + 1
      in nd\<lparr>nVisits := v,
            quality := fadd to_float (quality nd)
                         (fdiv to_float (fsub to_float result (quality nd)) (to_float (of_int v)))\<rparr>)"

text \<open>
  \<open>update_from_root\<close> first calls itself on the parent with \<open>-result * 0.95\<close>, then
  updates the node. \<open>0.95\<close> is a \<open>double\<close> literal, so the product is a \<open>double\<close>, and it is
  narrowed to the \<open>float\<close> parameter of the call. The recursion follows parent pointers and
  need not end in a store whose pointers form a cycle, so the function is partial: \<open>None\<close>
  stands for no result. Beside the store it returns the calls of \<open>update\<close> it made, oldest
  first, each as the address of the node and the value passed.
\<close>

partial_function (option) update_from_root ::
  "store \<Rightarrow> addr \<Rightarrow> fp \<Rightarrow> (store \<times> (addr \<times> fp) list) option" where
  "update_from_root h n result =
     (case deref h n of
        None \<Rightarrow> None
      | Some nd \<Rightarrow>
          (case parent nd of
             Some p \<Rightarrow>
               Option.bind
                 (update_from_root h p (narrow (fmul to_double (fneg result) (to_double (95 / 100)))))
                 (\<lambda>(h', calls). Some (h'[n := update (h' ! n) result], calls @ [(n, result)]))
           | None \<Rightarrow> Some (h[n := update nd result], [(n, result)])))"

definition setParentNull :: "MCTSNode \<Rightarrow> MCTSNode" where
  "setParentNull nd = nd\<lparr>parent := None\<rparr>"

definition isLeaf :: "MCTSNode \<Rightarrow> bool" where
  "isLeaf nd = (length (children nd) = 0)"

definition isRoot :: "MCTSNode \<Rightarrow> bool" where
  "isRoot nd = (parent nd = None)"

text \<open>
  \<open>std::max_element\<close> with a comparison that may write to the store and may fail: the
  first element is the candidate, and a later element replaces the candidate when the
  candidate compares less than it.
\<close>

fun max_element ::
  "('s \<Rightarrow> 'a \<Rightarrow> 'a \<Rightarrow> ('s \<times> bool) option) \<Rightarrow> 's \<Rightarrow> 'a \<Rightarrow> 'a list \<Rightarrow> ('s \<times> 'a) option" where
  "max_element cmp h largest [] = Some (h, largest)"
| "max_element cmp h largest (x # xs) =
     (case cmp h largest x of
        None \<Rightarrow> None
      | Some (h', lt) \<Rightarrow> max_element cmp h' (if lt then x else largest) xs)"

text \<open>
  The two comparisons that \<open>select\<close> passes: by \<open>evaluation\<close> during playouts, by visit
  count for the final choice. \<open>lg\<close> is handed on to \<open>evaluation\<close>.
\<close>

definition lessEvaluation ::
  "(int \<Rightarrow> fp) \<Rightarrow> fp \<Rightarrow> store \<Rightarrow> action2D \<times> addr \<Rightarrow> action2D \<times> addr \<Rightarrow> (store \<times> bool) option" where
  "lessEvaluation lg xplorCoeff h a b =
     (case evaluation lg h (snd a) xplorCoeff of
        None \<Rightarrow> None
      | Some (h1, va) \<Rightarrow>
          (case evaluation lg h1 (snd b) xplorCoeff of
             None \<Rightarrow> None
           | Some (h2, vb) \<Rightarrow> Some (h2, fless va vb)))"

definition lessVisits ::
  "store \<Rightarrow> action2D \<times> addr \<Rightarrow> action2D \<times> addr \<Rightarrow> (store \<times> bool) option" where
  "lessVisits h a b =
     (case deref h (snd a) of
        None \<Rightarrow> None
      | Some na \<Rightarrow>
          (case deref h (snd b) of
             None \<Rightarrow> None
           | Some nb \<Rightarrow> Some (h, nVisits na < nVisits nb)))"

text \<open>
  \<open>select\<close> returns an iterator into \<open>_children\<close>: here the entry it points to, or
  \<open>None\<close> for \<open>end()\<close>.
\<close>

definition select ::
  "(int \<Rightarrow> fp) \<Rightarrow> store \<Rightarrow> addr \<Rightarrow> fp \<Rightarrow> bool \<Rightarrow> (store \<times> (action2D \<times> addr) option) option" where
  "select lg h n xplorCoeff isPlayout =
     (case deref h n of
        None \<Rightarrow> None
      | Some nd \<Rightarrow>
          (case children nd of
             [] \<Rightarrow> Some (h, None)
           | c # cs \<Rightarrow>
               map_option (\<lambda>(h', it). (h', Some it))
                 (if isPlayout then max_element (lessEvaluation lg xplorCoeff) h c cs
                  else max_element lessVisits h c cs)))"

section \<open>The controller: \<open>MCTS\<close>\<close>

text \<open>
  \<open>_root\<close> is the address of the root node. The store is passed beside the object.
\<close>

record MCTS =
  root_node :: addr
  xplorCoeff :: fp
  timeLimit :: int
  state :: GameState
  rolloutCounter :: int

text \<open>
  The constructor \<open>MCTS(explorationCoeff, timeLimit)\<close> allocates the root node
  \<open>MCTSNode(nullptr, 1.0, false)\<close> at the next free address.
\<close>

definition MCTS_new :: "store \<Rightarrow> fp \<Rightarrow> int \<Rightarrow> store \<times> MCTS" where
  "MCTS_new h explorationCoeff limit =
     (h @ [MCTSNode_new None (Fin 1) False],
      \<lparr>root_node = length h, xplorCoeff = explorationCoeff, timeLimit = limit,
       state = GameState_init, rolloutCounter = 0\<rparr>)"

text \<open>
  \<open>getNextMove\<close> runs batches of playouts until the wall clock passes the limit, then
  selects among the children of the root by visit count. How many batches run depends on
  the clock, so the loop is a parameter: \<open>searchLoop\<close> maps the store and the object at
  entry to what the loop leaves (\<open>None\<close> if it does not return). The rest of the function
  is as in the source: \<open>{0, 0}\<close> when \<open>select\<close> returns \<open>end()\<close>, the selected action
  otherwise. \<open>lg\<close> is the \<open>log\<close> of the C library, as in \<open>evaluation\<close>.
\<close>

definition getNextMove ::
  "(int \<Rightarrow> fp) \<Rightarrow> (store \<Rightarrow> MCTS \<Rightarrow> (store \<times> MCTS) option) \<Rightarrow> store \<Rightarrow> MCTS \<Rightarrow> action2D option" where
  "getNextMove lg searchLoop h m =
     (case searchLoop h m of
        None \<Rightarrow> None
      | Some (h1, m1) \<Rightarrow>
          (case select lg h1 (root_node m1) (xplorCoeff m1) False of
             None \<Rightarrow> None
           | Some (h2, None) \<Rightarrow> Some \<lparr>actionX = 0, actionY = 0\<rparr>
           | Some (h2, Some it) \<Rightarrow> Some (fst it)))"

text \<open>
  \<open>updateWithMove\<close>: when the root has a child under \<open>action\<close>, the move is played,
  the child becomes the root and its parent pointer is cleared; otherwise the move is
  played and a new node \<open>MCTSNode(nullptr, 1.0, _state.redPlayedLast())\<close> becomes the root.
  The nodes that the assignment to \<open>_root\<close> destroys (the old root and the subtrees of its
  other children) stay in the store of the model; the new root no longer points to them.
\<close>

definition updateWithMove :: "store \<Rightarrow> MCTS \<Rightarrow> action2D \<Rightarrow> (store \<times> MCTS) option" where
  "updateWithMove h m a =
     (case deref h (root_node m) of
        None \<Rightarrow> None
      | Some rt \<Rightarrow>
          (case map_of (children rt) a of
             Some c \<Rightarrow>
               (case deref h c of
                  None \<Rightarrow> None
                | Some cn \<Rightarrow>
                    Some (h[c := setParentNull cn],
                          m\<lparr>state := snd (plays (state m) a), root_node := c\<rparr>))
           | None \<Rightarrow>
               let st = snd (plays (state m) a)
               in Some (h @ [MCTSNode_new None (Fin 1) (redPlayedLast st)],
                        m\<lparr>state := st, root_node := length h\<rparr>)))"

section \<open>Notions used to state the properties\<close>

subsection \<open>Sequences of moves\<close>

text \<open>
  Applying a list of moves in order with \<open>plays\<close>, and what it means for each of them to be
  legal at its turn: inside the grid and on an empty cell.
\<close>

fun playAll :: "GameState \<Rightarrow> action2D list \<Rightarrow> GameState" where
  "playAll s [] = s"
| "playAll s (a # as) = playAll (snd (plays s a)) as"

definition legalMove :: "GameState \<Rightarrow> action2D \<Rightarrow> bool" where
  "legalMove s a =
     (0 \<le> actionX a \<and> actionX a \<le> 10 \<and> 0 \<le> actionY a \<and> actionY a \<le> 10
      \<and> board s (actionX a) (actionY a) = 0)"

fun legalMoves :: "GameState \<Rightarrow> action2D list \<Rightarrow> bool" where
  "legalMoves s [] = True"
| "legalMoves s (a # as) = (legalMove s a \<and> legalMoves (snd (plays s a)) as)"

definition occupied :: "GameState \<Rightarrow> (int \<times> int) set" where
  "occupied s = {(i, j). 0 \<le> i \<and> i \<le> 10 \<and> 0 \<le> j \<and> j \<le> 10 \<and> board s i j \<noteq> 0}"

subsection \<open>Chains of stones\<close>

text \<open>
  The six neighbours of a cell are those that \<open>findLinkedNodes\<close> looks up. A connecting
  chain of a side is a list of distinct cells, all inside the grid and holding a stone of
  that side, each adjacent to the next, from the starting edge to the target edge.
\<close>

definition inGrid :: "action2D \<Rightarrow> bool" where
  "inGrid a = (0 \<le> actionX a \<and> actionX a \<le> 10 \<and> 0 \<le> actionY a \<and> actionY a \<le> 10)"

definition hexAdjacent :: "action2D \<Rightarrow> action2D \<Rightarrow> bool" where
  "hexAdjacent a b =
     ((actionX b = actionX a \<and> actionY b = actionY a - 1)
    \<or> (actionX b = actionX a \<and> actionY b = actionY a + 1)
    \<or> (actionX b = actionX a - 1 \<and> actionY b = actionY a)
    \<or> (actionX b = actionX a - 1 \<and> actionY b = actionY a + 1)
    \<or> (actionX b = actionX a + 1 \<and> actionY b = actionY a)
    \<or> (actionX b = actionX a + 1 \<and> actionY b = actionY a - 1))"

definition ownStone :: "GameState \<Rightarrow> bool \<Rightarrow> action2D \<Rightarrow> bool" where
  "ownStone s isRed a =
     (inGrid a \<and> board s (actionX a) (actionY a) = (if isRed then 1 else - 1))"

definition onTargetEdge :: "bool \<Rightarrow> action2D \<Rightarrow> bool" where
  "onTargetEdge isRed a = ((isRed \<and> actionX a = 10) \<or> (\<not> isRed \<and> actionY a = 10))"

definition connectingChain :: "GameState \<Rightarrow> bool \<Rightarrow> action2D list \<Rightarrow> bool" where
  "connectingChain s isRed p =
     (p \<noteq> [] \<and> distinct p \<and> list_all (ownStone s isRed) p \<and> successively hexAdjacent p
      \<and> onStartEdge isRed (hd p) \<and> onTargetEdge isRed (last p))"

text \<open>
  The position with the stone on one cell taken away.
\<close>

definition removeStone :: "GameState \<Rightarrow> action2D \<Rightarrow> GameState" where
  "removeStone s a =
     s\<lparr>board := (board s)(actionX a := (board s (actionX a))(actionY a := 0)),
       totalPieces := totalPieces s - 1\<rparr>"

text \<open>
  What the search maintains: some cell of the frontier is linked to the target edge
  through the pool (\<open>linkedToTarget\<close>), and every cell of the frontier is the end of a
  path of distinct stones that starts on the starting edge and avoids the pool
  (\<open>tracedFrom\<close>). \<open>edgeCoord\<close> is the coordinate that a side has to carry from 0 to 10.
\<close>

definition linkedToTarget :: "bool \<Rightarrow> action2D list \<Rightarrow> action2D list \<Rightarrow> bool" where
  "linkedToTarget isRed frontier pool =
     (\<exists>n rest. n \<in> set frontier \<and> set rest \<subseteq> set pool \<and> successively hexAdjacent (n # rest)
        \<and> onTargetEdge isRed (last (n # rest)))"

definition startPath :: "bool \<Rightarrow> action2D set \<Rightarrow> action2D list \<Rightarrow> bool" where
  "startPath isRed S p =
     (p \<noteq> [] \<and> distinct p \<and> set p \<subseteq> S \<and> successively hexAdjacent p \<and> onStartEdge isRed (hd p))"

definition tracedFrom :: "bool \<Rightarrow> action2D set \<Rightarrow> action2D list \<Rightarrow> action2D \<Rightarrow> bool" where
  "tracedFrom isRed S pool n =
     (\<exists>p. startPath isRed S p \<and> last p = n \<and> set p \<inter> set pool = {})"

definition edgeCoord :: "bool \<Rightarrow> action2D \<Rightarrow> int" where
  "edgeCoord isRed a = (if isRed then actionX a else actionY a)"

subsection \<open>Candidate cells\<close>

definition insideMargin :: "int \<Rightarrow> action2D \<Rightarrow> bool" where
  "insideMargin m a =
     (m \<le> actionX a \<and> actionX a \<le> 10 - m \<and> m \<le> actionY a \<and> actionY a \<le> 10 - m)"

definition emptyCellsWithin :: "GameState \<Rightarrow> int \<Rightarrow> action2D set" where
  "emptyCellsWithin s m = {a. insideMargin m a \<and> board s (actionX a) (actionY a) = 0}"

definition emptyGrid :: "GameState \<Rightarrow> bool" where
  "emptyGrid s = (\<forall>i\<in>{0..10}. \<forall>j\<in>{0..10}. board s i j = 0)"

definition inCentre :: "action2D \<Rightarrow> bool" where
  "inCentre a = (2 \<le> actionX a \<and> actionX a \<le> 9 \<and> 2 \<le> actionY a \<and> actionY a \<le> 9)"

subsection \<open>Ancestors in the tree\<close>

text \<open>
  \<open>ancestors h n d\<close> lists \<open>n\<close>, its parent, its grandparent and so on, \<open>d\<close> steps up at
  most; \<open>atDepth h n d\<close> says that \<open>d\<close> steps up from \<open>n\<close> lead to a node without a parent.
\<close>

fun ancestors :: "store \<Rightarrow> addr \<Rightarrow> nat \<Rightarrow> addr list" where
  "ancestors h n 0 = [n]"
| "ancestors h n (Suc d) =
     n # (case deref h n of
            None \<Rightarrow> []
          | Some nd \<Rightarrow> (case parent nd of None \<Rightarrow> [] | Some p \<Rightarrow> ancestors h p d))"

fun atDepth :: "store \<Rightarrow> addr \<Rightarrow> nat \<Rightarrow> bool" where
  "atDepth h n 0 = (case deref h n of None \<Rightarrow> False | Some nd \<Rightarrow> parent nd = None)"
| "atDepth h n (Suc d) =
     (case deref h n of
        None \<Rightarrow> False
      | Some nd \<Rightarrow> (case parent nd of None \<Rightarrow> False | Some p \<Rightarrow> atDepth h p d))"

text \<open>
  The value that the ancestor \<open>k\<close> levels up is passed when the node is passed \<open>r\<close>: one
  negation, one product with the \<open>double\<close> 0.95 and one narrowing to \<open>float\<close> per level.
\<close>

fun discounted :: "fp \<Rightarrow> nat \<Rightarrow> fp" where
  "discounted r 0 = r"
| "discounted r (Suc k) = discounted (narrow (fmul to_double (fneg r) (to_double (95 / 100)))) k"

subsection \<open>Order on floating-point values, and a library logarithm\<close>

text \<open>
  \<open>fle\<close> is \<open><=\<close> on \<open>float\<close> and \<open>double\<close>: it orders the numbers, the infinities included,
  and is false as soon as one side is NaN. \<open>log_rounded\<close> is the \<open>log\<close> of a library that
  rounds correctly, with the values that the C standard gives for zero and for negative
  arguments.
\<close>

fun fle :: "fp \<Rightarrow> fp \<Rightarrow> bool" where
  "fle NaN b = False"
| "fle a NaN = False"
| "fle (Fin x) (Fin y) = (x \<le> y)"
| "fle NInf b = True"
| "fle a PInf = True"
| "fle a b = False"

definition log_rounded :: "int \<Rightarrow> fp" where
  "log_rounded n = (if n < 0 then NaN else if n = 0 then NInf else to_double (ln (of_int n)))"

subsection \<open>Concrete positions and trees\<close>

text \<open>
  The opening of four moves; the position after the first move at (1, 2); the board that
  \<open>setState\<close> installs when column 0 is red and the rest empty; its column as a chain;
  a tree of four nodes (a root with two children, one of them with a child) and a
  controller rooted at its node 0; and a parent with one child, with the visit counts of
  both and the quality of the child left open.
\<close>

definition fourMoves :: "action2D list" where
  "fourMoves = [\<lparr>actionX = 0, actionY = 0\<rparr>, \<lparr>actionX = 10, actionY = 10\<rparr>,
                \<lparr>actionX = 0, actionY = 1\<rparr>, \<lparr>actionX = 10, actionY = 9\<rparr>]"

definition afterOne :: GameState where
  "afterOne = snd (plays GameState_init \<lparr>actionX = 1, actionY = 2\<rparr>)"

definition columnBoard :: GameState where
  "columnBoard = setState GameState_init (\<lambda>i j. if j = 0 then 1 else 0)"

definition columnChain :: "action2D list" where
  "columnChain = map (\<lambda>i. \<lparr>actionX = i, actionY = 0\<rparr>) [0..10]"

definition sampleTree :: store where
  "sampleTree =
     [(MCTSNode_new None (Fin 1) False)
        \<lparr>children := [(\<lparr>actionX = 1, actionY = 2\<rparr>, 1), (\<lparr>actionX = 3, actionY = 4\<rparr>, 2)],
         nVisits := 9\<rparr>,
      (MCTSNode_new (Some 0) (Fin 1) True)
        \<lparr>children := [(\<lparr>actionX = 5, actionY = 5\<rparr>, 3)], nVisits := 7, quality := Fin (1 / 4)\<rparr>,
      (MCTSNode_new (Some 0) (Fin (3 / 2)) True)\<lparr>nVisits := 2, quality := Fin (- (1 / 2))\<rparr>,
      MCTSNode_new (Some 1) (Fin (3 / 2)) False]"

definition sampleMCTS :: MCTS where
  "sampleMCTS = \<lparr>root_node = 0, xplorCoeff = Fin (1 / 2), timeLimit = 1000,
                  state = GameState_init, rolloutCounter = 0\<rparr>"


section \<open>Moves outside the grid\<close>

text \<open>
  C4. For every state and every action with a row or a column outside 0..10, \<open>plays\<close>
  returns \<open>false\<close> and the whole object, grid and piece count, is as it was.
\<close>

theorem plays_outside_grid_rejected:
  assumes "actionX a < 0 \<or> 10 < actionX a \<or> actionY a < 0 \<or> 10 < actionY a"
  shows "plays s a = (False, s)
       \<and> board (snd (plays s a)) = board s
       \<and> totalPieces (snd (plays s a)) = totalPieces s"
  using assms by (auto simp: plays_def)

theorem plays_outside_grid_rejected_witness:
  "10 < actionX \<lparr>actionX = 11, actionY = 3\<rparr>
   \<and> plays GameState_init \<lparr>actionX = 11, actionY = 3\<rparr> = (False, GameState_init)"
  using plays_outside_grid_rejected [of "\<lparr>actionX = 11, actionY = 3\<rparr>" GameState_init]
  by simp

section \<open>Piece count and turn order\<close>

lemma occupied_subset: "occupied s \<subseteq> {0..10} \<times> {0..10}"
  by (auto simp: occupied_def)

lemma finite_occupied: "finite (occupied s)"
  by (rule finite_subset [OF occupied_subset]) simp

lemma card_occupied_le: "card (occupied s) \<le> 121"
proof -
  have "card (occupied s) \<le> card ({0..10::int} \<times> {0..10::int})"
    by (rule card_mono [OF _ occupied_subset]) simp
  then show ?thesis by simp
qed

lemma occupied_plays:
  assumes "legalMove s a"
  shows "occupied (snd (plays s a)) = insert (actionX a, actionY a) (occupied s)"
    and "(actionX a, actionY a) \<notin> occupied s"
  using assms by (auto simp: legalMove_def plays_def occupied_def split: if_splits)

lemma totalPieces_plays:
  "legalMove s a \<Longrightarrow> totalPieces (snd (plays s a)) = totalPieces s + 1"
  by (simp add: legalMove_def plays_def)

lemma playAll_count:
  "legalMoves s ms \<Longrightarrow> totalPieces s = int (card (occupied s)) \<Longrightarrow>
   totalPieces (playAll s ms) = totalPieces s + int (length ms)
   \<and> totalPieces (playAll s ms) = int (card (occupied (playAll s ms)))"
proof (induction ms arbitrary: s)
  case Nil
  then show ?case by simp
next
  case (Cons a ms)
  from Cons.prems have la: "legalMove s a" and rest: "legalMoves (snd (plays s a)) ms"
    by simp_all
  have "card (occupied (snd (plays s a))) = Suc (card (occupied s))"
    using occupied_plays [OF la] finite_occupied [of s] by simp
  with Cons.prems(2) totalPieces_plays [OF la]
  have inv: "totalPieces (snd (plays s a)) = int (card (occupied (snd (plays s a))))"
    by simp
  from Cons.IH [OF rest inv] totalPieces_plays [OF la] show ?case
    by simp
qed

lemma occupied_init: "occupied GameState_init = {}"
  by (simp add: occupied_def GameState_init_def)

lemma legalMoves_take: "legalMoves s ms \<Longrightarrow> legalMoves s (take k ms)"
proof (induction ms arbitrary: s k)
  case Nil
  then show ?case by simp
next
  case (Cons a ms)
  then show ?case by (cases k) simp_all
qed

lemma playAll_init_count:
  assumes "legalMoves GameState_init ms"
  shows "totalPieces (playAll GameState_init ms) = int (length ms)" and "length ms \<le> 121"
proof -
  have z: "totalPieces GameState_init = int (card (occupied GameState_init))"
    by (simp add: occupied_init) (simp add: GameState_init_def)
  from playAll_count [OF assms z]
  have a: "totalPieces (playAll GameState_init ms) = int (length ms)"
    and b: "totalPieces (playAll GameState_init ms) = int (card (occupied (playAll GameState_init ms)))"
    by (simp_all add: GameState_init_def)
  show "totalPieces (playAll GameState_init ms) = int (length ms)" by (rule a)
  from a b card_occupied_le [of "playAll GameState_init ms"] show "length ms \<le> 121"
    by linarith
qed

text \<open>
  C5. After any sequence of legal moves played from the fresh board, the piece count is
  the number of moves and lies in 0..121; red is to move exactly when the count is even;
  and the side to move changes with every move of the sequence.
\<close>

theorem legal_moves_count_and_turn:
  assumes "legalMoves GameState_init ms"
  shows "totalPieces (playAll GameState_init ms) = int (length ms)
       \<and> 0 \<le> totalPieces (playAll GameState_init ms)
       \<and> totalPieces (playAll GameState_init ms) \<le> 121
       \<and> redPlaysNext (playAll GameState_init ms) = even (totalPieces (playAll GameState_init ms))
       \<and> (\<forall>k < length ms.
            redPlaysNext (playAll GameState_init (take (Suc k) ms))
              = (\<not> redPlaysNext (playAll GameState_init (take k ms))))"
proof -
  have c: "totalPieces (playAll GameState_init ms) = int (length ms)" and l: "length ms \<le> 121"
    using playAll_init_count [OF assms] by simp_all
  have alt: "redPlaysNext (playAll GameState_init (take (Suc k) ms))
              = (\<not> redPlaysNext (playAll GameState_init (take k ms)))" if "k < length ms" for k
  proof -
    have "totalPieces (playAll GameState_init (take (Suc k) ms)) = int (Suc k)"
      using playAll_init_count(1) [OF legalMoves_take [OF assms, of "Suc k"]] that by simp
    moreover have "totalPieces (playAll GameState_init (take k ms)) = int k"
      using playAll_init_count(1) [OF legalMoves_take [OF assms, of k]] that by simp
    ultimately show ?thesis
      by (simp add: redPlaysNext_def even_iff_mod_2_eq_zero [symmetric])
  qed
  from c l alt show ?thesis
    by (simp add: redPlaysNext_def even_iff_mod_2_eq_zero)
qed

theorem legal_moves_count_and_turn_witness:
  "legalMoves GameState_init fourMoves
   \<and> totalPieces (playAll GameState_init fourMoves) = 4
   \<and> redPlaysNext (playAll GameState_init fourMoves)
   \<and> \<not> redPlaysNext (playAll GameState_init (take 3 fourMoves))"
proof -
  have h: "legalMoves GameState_init fourMoves"
    by (simp add: fourMoves_def legalMove_def plays_def GameState_init_def)
  note t = legal_moves_count_and_turn [OF h]
  from t have c: "totalPieces (playAll GameState_init fourMoves) = int (length fourMoves)"
    by blast
  from t have r: "redPlaysNext (playAll GameState_init fourMoves)
      = even (totalPieces (playAll GameState_init fourMoves))"
    by blast
  from t have "\<forall>k < length fourMoves.
            redPlaysNext (playAll GameState_init (take (Suc k) fourMoves))
              = (\<not> redPlaysNext (playAll GameState_init (take k fourMoves)))"
    by blast
  moreover have "3 < length fourMoves"
    by (simp add: fourMoves_def)
  ultimately have "redPlaysNext (playAll GameState_init (take (Suc 3) fourMoves))
              = (\<not> redPlaysNext (playAll GameState_init (take 3 fourMoves)))"
    by blast
  moreover have "take (Suc 3) fourMoves = fourMoves"
    by (simp add: fourMoves_def)
  moreover have "length fourMoves = 4"
    by (simp add: fourMoves_def)
  ultimately show ?thesis using h c r
    by simp
qed

section \<open>Candidate moves\<close>

lemma set_cells:
  "set [\<lparr>actionX = i, actionY = j\<rparr>. i \<leftarrow> xs, j \<leftarrow> ys, P i j]
     = {a. actionX a \<in> set xs \<and> actionY a \<in> set ys \<and> P (actionX a) (actionY a)}"
proof (rule set_eqI)
  fix a :: action2D
  obtain i j where a: "a = \<lparr>actionX = i, actionY = j\<rparr>"
    by (cases a)
  show "a \<in> set [\<lparr>actionX = i, actionY = j\<rparr>. i \<leftarrow> xs, j \<leftarrow> ys, P i j]
      \<longleftrightarrow> a \<in> {a. actionX a \<in> set xs \<and> actionY a \<in> set ys \<and> P (actionX a) (actionY a)}"
    unfolding a by auto
qed

lemma distinct_row:
  "distinct ys \<Longrightarrow> distinct [\<lparr>actionX = i, actionY = j\<rparr>. j \<leftarrow> ys, P i j]"
  by (induction ys) auto

lemma set_row:
  "a \<in> set [\<lparr>actionX = i, actionY = j\<rparr>. j \<leftarrow> ys, P i j] \<Longrightarrow> actionX a = i"
  by auto

lemma distinct_cells:
  "distinct xs \<Longrightarrow> distinct ys \<Longrightarrow>
   distinct [\<lparr>actionX = i, actionY = j\<rparr>. i \<leftarrow> xs, j \<leftarrow> ys, P i j]"
proof (induction xs)
  case Nil
  then show ?case by simp
next
  case (Cons x xs)
  have "actionX a \<in> set xs"
    if "a \<in> set [\<lparr>actionX = i, actionY = j\<rparr>. i \<leftarrow> xs, j \<leftarrow> ys, P i j]" for a
    using that unfolding set_cells by simp
  with Cons show ?case
    using distinct_row [where ys = ys and i = x and P = P]
      set_row [where i = x and ys = ys and P = P] by fastforce
qed

lemma to_char_id: "- 128 \<le> v \<Longrightarrow> v \<le> 127 \<Longrightarrow> to_char v = v"
  by (simp add: to_char_def)

lemma computeRangeBound_near:
  assumes "- 129 \<le> actionX a" "actionX a \<le> 128" "- 129 \<le> actionY a" "actionY a \<le> 128"
  shows "computeRangeBound a 1
      = (max 0 (actionX a - 1), min 10 (actionX a + 1), max 0 (actionY a - 1), min 10 (actionY a + 1))"
  using assms by (simp add: computeRangeBound_def to_char_id)

lemma scan_inside:
  "[(i, j). i \<leftarrow> [max 0 (y - 1)..min 10 (y + 1)], j \<leftarrow> [max 0 (x - 1)..min 10 (x + 1)],
      i < 0 \<or> 10 < i \<or> j < 0 \<or> 10 < j] = []"
  by (auto simp: concat_eq_Nil_conv)

lemma heuristicPrior_near:
  assumes "- 129 \<le> actionX a" "actionX a \<le> 128" "- 129 \<le> actionY a" "actionY a \<le> 128"
  shows "\<exists>w. heuristicPrior s a = Some \<lparr>action = a, probability = w\<rparr>"
  unfolding heuristicPrior_def computeRangeBound_near [OF assms] prod.case scan_inside
  by (simp add: Let_def)

lemma those_heuristicPrior:
  assumes "\<forall>a\<in>set as. \<exists>w. f a = Some \<lparr>action = a, probability = w\<rparr>"
  shows "\<exists>ps. those (map f as) = Some ps \<and> map action ps = as"
  using assms
proof (induction as)
  case Nil
  then show ?case by simp
next
  case (Cons a as)
  then obtain ps where "those (map f as) = Some ps" "map action ps = as"
    by auto
  moreover from Cons.prems obtain w where "f a = Some \<lparr>action = a, probability = w\<rparr>"
    by auto
  ultimately show ?case
    by simp
qed

lemma outputActionPrior_cells:
  assumes "totalPieces s \<noteq> 0 \<or> \<not> forcedFirst"
  shows "\<exists>ps. outputActionPrior s forcedFirst forcedPlay = Some ps
       \<and> map action ps
           = [\<lparr>actionX = i, actionY = j\<rparr>.
                i \<leftarrow> [0 + borderRange (totalPieces s)..11 - borderRange (totalPieces s) - 1],
                j \<leftarrow> [0 + borderRange (totalPieces s)..11 - borderRange (totalPieces s) - 1],
                board s i j = 0]"
proof -
  let ?r = "borderRange (totalPieces s)"
  let ?cells = "[\<lparr>actionX = i, actionY = j\<rparr>. i \<leftarrow> [0 + ?r..11 - ?r - 1], j \<leftarrow> [0 + ?r..11 - ?r - 1],
              board s i j = 0]"
  have n: "\<not> (totalPieces s = 0 \<and> forcedFirst)"
    using assms by auto
  have r: "0 \<le> ?r"
    by (simp add: borderRange_def)
  have "\<exists>w. heuristicPrior s a = Some \<lparr>action = a, probability = w\<rparr>" if "a \<in> set ?cells" for a
  proof (rule heuristicPrior_near)
    from that have "?r \<le> actionX a" "actionX a \<le> 11 - ?r - 1" "?r \<le> actionY a" "actionY a \<le> 11 - ?r - 1"
      unfolding set_cells by simp_all
    with r show "- 129 \<le> actionX a" "actionX a \<le> 128" "- 129 \<le> actionY a" "actionY a \<le> 128"
      by simp_all
  qed
  then have "\<forall>a\<in>set ?cells. \<exists>w. heuristicPrior s a = Some \<lparr>action = a, probability = w\<rparr>"
    by blast
  from those_heuristicPrior [OF this] obtain ps where
    ps: "those (map (heuristicPrior s) ?cells) = Some ps" and m: "map action ps = ?cells"
    by blast
  have "outputActionPrior s forcedFirst forcedPlay = Some ps"
    unfolding outputActionPrior_def Let_def if_not_P [OF n] by (rule ps)
  with m show ?thesis
    by blast
qed

text \<open>
  C6. On a board with pieces, or on an empty board when no move is forced,
  \<open>outputActionPrior\<close> has a result (no candidate makes it read outside the board), and
  the result holds each empty cell inside the margin once and nothing else. The margin
  is 3 cells while at most 4 pieces are on the board, 2 cells up to 8 pieces, 1 cell up
  to 12 pieces and none after that.
\<close>

theorem outputActionPrior_margin:
  assumes "totalPieces s \<noteq> 0 \<or> \<not> forcedFirst"
  shows "\<exists>ps. outputActionPrior s forcedFirst forcedPlay = Some ps
       \<and> distinct (map action ps)
       \<and> set (map action ps)
           = emptyCellsWithin s
               (if totalPieces s \<le> 4 then 3 else if totalPieces s \<le> 8 then 2
                else if totalPieces s \<le> 12 then 1 else 0)"
proof -
  let ?r = "borderRange (totalPieces s)"
  from outputActionPrior_cells [OF assms, of forcedPlay] obtain ps where
    o: "outputActionPrior s forcedFirst forcedPlay = Some ps"
    and m: "map action ps
        = [\<lparr>actionX = i, actionY = j\<rparr>. i \<leftarrow> [0 + ?r..11 - ?r - 1], j \<leftarrow> [0 + ?r..11 - ?r - 1],
              board s i j = 0]"
    by blast
  have d: "distinct (map action ps)"
    unfolding m by (rule distinct_cells) simp_all
  have "set (map action ps) = emptyCellsWithin s ?r"
    unfolding m set_cells by (auto simp: emptyCellsWithin_def insideMargin_def)
  with o d show ?thesis
    by (simp add: borderRange_def)
qed

theorem outputActionPrior_margin_witness:
  "totalPieces afterOne = 1
   \<and> (\<exists>ps. outputActionPrior afterOne True \<lparr>actionX = 1, actionY = 2\<rparr> = Some ps
         \<and> set (map action ps) = emptyCellsWithin afterOne 3
         \<and> length ps = 25)"
proof -
  have t: "totalPieces afterOne = 1"
    by (simp add: afterOne_def plays_def GameState_init_def)
  then have h: "totalPieces afterOne \<noteq> 0 \<or> \<not> True"
    by simp
  from outputActionPrior_margin [OF h, of "\<lparr>actionX = 1, actionY = 2\<rparr>"] t obtain ps where
    ps: "outputActionPrior afterOne True \<lparr>actionX = 1, actionY = 2\<rparr> = Some ps"
      "set (map action ps) = emptyCellsWithin afterOne 3"
    by auto
  from outputActionPrior_cells [OF h, of "\<lparr>actionX = 1, actionY = 2\<rparr>"] ps(1)
  have "map action ps
      = [\<lparr>actionX = i, actionY = j\<rparr>.
           i \<leftarrow> [0 + borderRange (totalPieces afterOne)..11 - borderRange (totalPieces afterOne) - 1],
           j \<leftarrow> [0 + borderRange (totalPieces afterOne)..11 - borderRange (totalPieces afterOne) - 1],
           board afterOne i j = 0]"
    by simp
  then have "length (map action ps) = 25"
    by (simp add: t borderRange_def afterOne_def plays_def GameState_init_def upto.simps)
  with t ps show ?thesis
    by simp
qed

lemma filter_all_zero:
  assumes "\<forall>v\<in>set xs. v = (0::int)"
  shows "filter (\<lambda>v. v = 1) xs = []" and "filter (\<lambda>v. v = - 1) xs = []"
  using assms by (induction xs) auto

lemma heuristicPrior_emptyGrid:
  assumes e: "emptyGrid s"
    and g: "- 129 \<le> actionX f" "actionX f \<le> 128" "- 129 \<le> actionY f" "actionY f \<le> 128"
  shows "heuristicPrior s f = Some \<lparr>action = f, probability = (if inCentre f then 3 / 2 else 1)\<rparr>"
proof -
  let ?cells = "[board s i j. i \<leftarrow> [max 0 (actionY f - 1)..min 10 (actionY f + 1)],
                   j \<leftarrow> [max 0 (actionX f - 1)..min 10 (actionX f + 1)]]"
  have "\<forall>v\<in>set ?cells. v = 0"
    using e by (auto simp: emptyGrid_def)
  then have "filter (\<lambda>v. v = 1) ?cells = []" and "filter (\<lambda>v. v = - 1) ?cells = []"
    by (rule filter_all_zero)+
  then show ?thesis
    unfolding heuristicPrior_def computeRangeBound_near [OF g] prod.case scan_inside
    by (simp add: Let_def inCentre_def)
qed

lemma emptyGrid_init: "emptyGrid GameState_init"
  by (simp add: emptyGrid_def GameState_init_def)

text \<open>
  C7, as the program has it. With no piece on the board and forcing requested, for a
  forced action whose coordinates lie between -129 and 128, which covers the grid,
  \<open>outputActionPrior\<close> returns one candidate, the forced action. On an empty grid its
  weight is 1.5 when the action lies in the central rows and columns 2..9, and 1
  otherwise: the centre multiplier applies to the forced action as to any other. In that
  range the bounds of the neighbourhood fit the \<open>char\<close>s that hold them and the scan stays
  on the board; nothing is stated outside of it, where the scan can leave the board.
\<close>

theorem outputActionPrior_forced:
  assumes "totalPieces s = 0"
    and "- 129 \<le> actionX f" and "actionX f \<le> 128" and "- 129 \<le> actionY f" and "actionY f \<le> 128"
  shows "(\<exists>w. outputActionPrior s True f = Some [\<lparr>action = f, probability = w\<rparr>])
       \<and> (emptyGrid s \<longrightarrow>
            outputActionPrior s True f
              = Some [\<lparr>action = f, probability = (if inCentre f then 3 / 2 else 1)\<rparr>])"
proof -
  from heuristicPrior_near [OF assms(2-5), of s] obtain w where
    "heuristicPrior s f = Some \<lparr>action = f, probability = w\<rparr>"
    by blast
  with assms(1) have "outputActionPrior s True f = Some [\<lparr>action = f, probability = w\<rparr>]"
    by (simp add: outputActionPrior_def)
  moreover have "outputActionPrior s True f
      = Some [\<lparr>action = f, probability = (if inCentre f then 3 / 2 else 1)\<rparr>]" if "emptyGrid s"
    using assms(1) heuristicPrior_emptyGrid [OF that assms(2-5)] by (simp add: outputActionPrior_def)
  ultimately show ?thesis
    by blast
qed

theorem outputActionPrior_forced_witness:
  "totalPieces GameState_init = 0 \<and> emptyGrid GameState_init
   \<and> outputActionPrior GameState_init True \<lparr>actionX = 1, actionY = 2\<rparr>
       = Some [\<lparr>action = \<lparr>actionX = 1, actionY = 2\<rparr>, probability = 1\<rparr>]
   \<and> outputActionPrior GameState_init True \<lparr>actionX = 4, actionY = 7\<rparr>
       = Some [\<lparr>action = \<lparr>actionX = 4, actionY = 7\<rparr>, probability = 3 / 2\<rparr>]
   \<and> outputActionPrior GameState_init True \<lparr>actionX = 11, actionY = - 1\<rparr>
       = Some [\<lparr>action = \<lparr>actionX = 11, actionY = - 1\<rparr>, probability = 1\<rparr>]"
proof -
  have z: "totalPieces GameState_init = 0"
    by (simp add: GameState_init_def)
  show ?thesis
    using z emptyGrid_init
      outputActionPrior_forced [OF z, of "\<lparr>actionX = 1, actionY = 2\<rparr>"]
      outputActionPrior_forced [OF z, of "\<lparr>actionX = 4, actionY = 7\<rparr>"]
      outputActionPrior_forced [OF z, of "\<lparr>actionX = 11, actionY = - 1\<rparr>"]
    by (simp add: inCentre_def)
qed

text \<open>
  The forced action (5, 5) on the fresh board comes back with weight 1.5, not 1.
\<close>

theorem outputActionPrior_forced_counterexample:
  "emptyGrid GameState_init \<and> totalPieces GameState_init = 0
   \<and> outputActionPrior GameState_init True \<lparr>actionX = 5, actionY = 5\<rparr>
       = Some [\<lparr>action = \<lparr>actionX = 5, actionY = 5\<rparr>, probability = 3 / 2\<rparr>]
   \<and> map_option (\<lambda>ps. probability (hd ps)) (outputActionPrior GameState_init True \<lparr>actionX = 5, actionY = 5\<rparr>)
       \<noteq> Some 1"
proof -
  have "heuristicPrior GameState_init \<lparr>actionX = 5, actionY = 5\<rparr>
      = Some \<lparr>action = \<lparr>actionX = 5, actionY = 5\<rparr>,
              probability = (if inCentre \<lparr>actionX = 5, actionY = 5\<rparr> then 3 / 2 else 1)\<rparr>"
    by (rule heuristicPrior_emptyGrid [OF emptyGrid_init]) simp_all
  then have "outputActionPrior GameState_init True \<lparr>actionX = 5, actionY = 5\<rparr>
      = Some [\<lparr>action = \<lparr>actionX = 5, actionY = 5\<rparr>, probability = 3 / 2\<rparr>]"
    by (simp add: outputActionPrior_def GameState_init_def inCentre_def)
  with emptyGrid_init show ?thesis
    by (simp add: GameState_init_def)
qed

text \<open>
  For the forced action (129, 5) the left bound wraps to -128 in its \<open>char\<close> and the scan
  reads columns -128 to 10 of rows 4 to 6: the call has no defined result.
\<close>

lemma forced_outside_undefined:
  "outputActionPrior GameState_init True \<lparr>actionX = 129, actionY = 5\<rparr> = None"
proof -
  have c: "computeRangeBound \<lparr>actionX = 129, actionY = 5\<rparr> 1 = (- 128, 10, 4, 6)"
    by (simp add: computeRangeBound_def to_char_def)
  have "(4, - 128) \<in> set [(i, j). i \<leftarrow> [4..6], j \<leftarrow> [- 128..10], i < 0 \<or> 10 < i \<or> j < 0 \<or> 10 < j]"
    by simp
  then have "[(i, j). i \<leftarrow> [4..6], j \<leftarrow> [- 128..10], i < 0 \<or> 10 < i \<or> j < 0 \<or> 10 < j] \<noteq> ([] :: (int \<times> int) list)"
    by (metis empty_iff empty_set)
  then have "heuristicPrior GameState_init \<lparr>actionX = 129, actionY = 5\<rparr> = None"
    unfolding heuristicPrior_def c prod.case by (simp only: if_False)
  then show ?thesis
    by (simp add: outputActionPrior_def GameState_init_def)
qed

section \<open>The win check\<close>

subsection \<open>What \<open>findLinkedNodes\<close> finds\<close>

lemma linkIfPresent_fst:
  "set (fst (linkIfPresent g t rp)) = set (fst rp) \<union> {x. x = t \<and> g \<and> t \<in> set (snd rp)}"
  by (cases rp) (auto simp: linkIfPresent_def)

lemma linkIfPresent_snd:
  "distinct (snd rp) \<Longrightarrow> set (snd (linkIfPresent g t rp)) = set (snd rp) - {x. x = t \<and> g}"
  by (cases rp) (auto simp: linkIfPresent_def)

lemma linkIfPresent_distinct:
  "distinct (snd rp) \<Longrightarrow> distinct (snd (linkIfPresent g t rp))"
  by (cases rp) (auto simp: linkIfPresent_def)

lemma findLinkedNodes_found:
  assumes "distinct pl"
  shows "set (fst (findLinkedNodes a pl))
       = {b \<in> set pl.
            (b = \<lparr>actionX = actionX a, actionY = actionY a - 1\<rparr> \<and> actionY a > 0)
          \<or> (b = \<lparr>actionX = actionX a, actionY = actionY a + 1\<rparr> \<and> actionY a < 10)
          \<or> (b = \<lparr>actionX = actionX a - 1, actionY = actionY a\<rparr> \<and> actionX a > 0)
          \<or> (b = \<lparr>actionX = actionX a - 1, actionY = actionY a + 1\<rparr> \<and> actionX a > 0 \<and> actionY a < 10)
          \<or> (b = \<lparr>actionX = actionX a + 1, actionY = actionY a\<rparr> \<and> actionX a < 10)
          \<or> (b = \<lparr>actionX = actionX a + 1, actionY = actionY a - 1\<rparr> \<and> actionX a < 10 \<and> actionY a > 0)}"
  using assms
  by (simp add: findLinkedNodes_def Let_def linkIfPresent_fst linkIfPresent_snd linkIfPresent_distinct)
     auto

lemma findLinkedNodes_rest:
  assumes "distinct pl"
  shows "set (snd (findLinkedNodes a pl)) = set pl - set (fst (findLinkedNodes a pl))"
    and "distinct (snd (findLinkedNodes a pl))"
  using assms
  by (simp_all add: findLinkedNodes_def Let_def linkIfPresent_fst linkIfPresent_snd linkIfPresent_distinct)
     auto

lemma findLinkedNodes_adjacent:
  assumes "distinct pl" and "b \<in> set (fst (findLinkedNodes a pl))"
  shows "b \<in> set pl \<and> hexAdjacent a b"
proof -
  from assms(2) have m: "b \<in> set pl" and
    d: "(b = \<lparr>actionX = actionX a, actionY = actionY a - 1\<rparr> \<and> actionY a > 0)
          \<or> (b = \<lparr>actionX = actionX a, actionY = actionY a + 1\<rparr> \<and> actionY a < 10)
          \<or> (b = \<lparr>actionX = actionX a - 1, actionY = actionY a\<rparr> \<and> actionX a > 0)
          \<or> (b = \<lparr>actionX = actionX a - 1, actionY = actionY a + 1\<rparr> \<and> actionX a > 0 \<and> actionY a < 10)
          \<or> (b = \<lparr>actionX = actionX a + 1, actionY = actionY a\<rparr> \<and> actionX a < 10)
          \<or> (b = \<lparr>actionX = actionX a + 1, actionY = actionY a - 1\<rparr> \<and> actionX a < 10 \<and> actionY a > 0)"
    unfolding findLinkedNodes_found [OF assms(1)] by blast+
  from d have "hexAdjacent a b"
    unfolding hexAdjacent_def by (elim disjE conjE) simp_all
  with m show ?thesis ..
qed

lemma findLinkedNodes_complete:
  assumes "distinct pl" and "b \<in> set pl" and "hexAdjacent a b" and "inGrid a" and "inGrid b"
  shows "b \<in> set (fst (findLinkedNodes a pl))"
proof -
  obtain i j where b: "b = \<lparr>actionX = i, actionY = j\<rparr>"
    by (cases b)
  from assms(4,5) have g: "0 \<le> actionX a" "actionX a \<le> 10" "0 \<le> actionY a" "actionY a \<le> 10"
    "0 \<le> i" "i \<le> 10" "0 \<le> j" "j \<le> 10"
    unfolding b inGrid_def by simp_all
  from assms(3) have
     "(b = \<lparr>actionX = actionX a, actionY = actionY a - 1\<rparr> \<and> actionY a > 0)
          \<or> (b = \<lparr>actionX = actionX a, actionY = actionY a + 1\<rparr> \<and> actionY a < 10)
          \<or> (b = \<lparr>actionX = actionX a - 1, actionY = actionY a\<rparr> \<and> actionX a > 0)
          \<or> (b = \<lparr>actionX = actionX a - 1, actionY = actionY a + 1\<rparr> \<and> actionX a > 0 \<and> actionY a < 10)
          \<or> (b = \<lparr>actionX = actionX a + 1, actionY = actionY a\<rparr> \<and> actionX a < 10)
          \<or> (b = \<lparr>actionX = actionX a + 1, actionY = actionY a - 1\<rparr> \<and> actionX a < 10 \<and> actionY a > 0)"
    unfolding hexAdjacent_def b using g by (elim disjE conjE) simp_all
  with assms(2) show ?thesis
    unfolding findLinkedNodes_found [OF assms(1)] by blast
qed

subsection \<open>The search finds every link to the target edge\<close>

lemma successively_suffix: "successively P (xs @ ys) \<Longrightarrow> successively P ys"
  by (simp add: successively_append_iff)

lemma dfs_complete:
  "linkedToTarget isRed frontier pool \<Longrightarrow> distinct pool \<Longrightarrow>
   \<forall>a\<in>set frontier \<union> set pool. inGrid a \<Longrightarrow> dfs frontier pool isRed"
proof (induction frontier pool isRed rule: dfs.induct)
  case (1 frontier pool isRed)
  from "1.prems"(1) obtain n rest where
    n: "n \<in> set frontier" and rest: "set rest \<subseteq> set pool"
    and succ: "successively hexAdjacent (n # rest)"
    and tgt: "onTargetEdge isRed (last (n # rest))"
    unfolding linkedToTarget_def by blast
  from n have ne: "frontier \<noteq> []" by auto
  let ?node = "last frontier"
  show ?case
  proof (cases "onTargetEdge isRed ?node")
    case True
    with ne show ?thesis
      by (subst dfs.simps) (auto simp: onTargetEdge_def Let_def)
  next
    case False
    obtain nf pl' where fl: "findLinkedNodes ?node pool = (nf, pl')"
      by (cases "findLinkedNodes ?node pool")
    have nf: "set nf = set (fst (findLinkedNodes ?node pool))"
      and pl': "set pl' = set pool - set nf" and dpl': "distinct pl'"
      using findLinkedNodes_rest [OF "1.prems"(2), of ?node] fl by simp_all
    have nfsub: "set nf \<subseteq> set pool"
      using findLinkedNodes_adjacent [OF "1.prems"(2)] nf by blast
    have grid: "\<forall>a\<in>set (butlast frontier @ nf) \<union> set pl'. inGrid a"
      using "1.prems"(3) nfsub pl' by (auto dest: in_set_butlastD)
    have step: "dfs frontier pool isRed = dfs (butlast frontier @ nf) pl' isRed"
      using ne False fl by (subst dfs.simps) (auto simp: onTargetEdge_def Let_def)
    have lt: "linkedToTarget isRed (butlast frontier @ nf) pl'"
    proof (cases "\<exists>x\<in>set rest. x \<in> set nf")
      case True
      then obtain ys b zs where sp: "rest = ys @ b # zs" and b: "b \<in> set nf"
        and zs: "\<forall>z\<in>set zs. z \<notin> set nf"
        by (rule split_list_last_propE)
      have "successively hexAdjacent ((n # ys) @ b # zs)"
        using succ sp by simp
      then have "successively hexAdjacent (b # zs)"
        by (rule successively_suffix)
      moreover have "set zs \<subseteq> set pl'"
        using rest sp zs pl' by auto
      moreover have "onTargetEdge isRed (last (b # zs))"
        using tgt sp by simp
      ultimately show ?thesis
        unfolding linkedToTarget_def using b by (intro exI [of _ b] exI [of _ zs]) simp
    next
      case noneFound: False
      then have restsub: "set rest \<subseteq> set pl'"
        using rest pl' by auto
      have "n \<in> set (butlast frontier)"
      proof (rule ccontr)
        assume "n \<notin> set (butlast frontier)"
        moreover have "set frontier = set (butlast frontier @ [?node])"
          using ne by simp
        ultimately have nn: "n = ?node"
          using n by simp
        with False tgt have "rest \<noteq> []"
          by auto
        then obtain b rest' where r: "rest = b # rest'"
          by (cases rest) auto
        with succ nn have adj: "hexAdjacent ?node b"
          by simp
        from r rest have bp: "b \<in> set pool"
          by simp
        from "1.prems"(3) ne bp have "inGrid ?node" "inGrid b"
          by simp_all
        from findLinkedNodes_complete [OF "1.prems"(2) bp adj this] nf r noneFound
        show False by simp
      qed
      with restsub succ tgt show ?thesis
        unfolding linkedToTarget_def by (intro exI [of _ n] exI [of _ rest]) simp
    qed
    have nt: "\<not> (isRed \<and> actionX ?node = 10)" "\<not> (\<not> isRed \<and> actionY ?node = 10)"
      using False by (auto simp: onTargetEdge_def)
    have "dfs (butlast frontier @ nf) pl' isRed"
      by (rule "1.IH" [OF ne refl refl nt fl [symmetric] lt dpl' grid])
    with step show ?thesis
      by (rule iffD2)
  qed
qed

subsection \<open>The search answers \<open>true\<close> only along a path of stones\<close>

lemma startPath_snoc:
  assumes "startPath isRed S p" and "hexAdjacent (last p) n" and "n \<in> S" and "n \<notin> set p"
  shows "startPath isRed S (p @ [n])"
  using assms by (simp add: startPath_def successively_append_iff)

lemma dfs_sound:
  "dfs frontier pool isRed \<Longrightarrow> distinct pool \<Longrightarrow> set pool \<subseteq> S \<Longrightarrow>
   \<forall>n\<in>set frontier. tracedFrom isRed S pool n \<Longrightarrow>
   \<exists>p. startPath isRed S p \<and> onTargetEdge isRed (last p)"
proof (induction frontier pool isRed rule: dfs.induct)
  case (1 frontier pool isRed)
  have ne: "frontier \<noteq> []"
  proof
    assume "frontier = []"
    then have "\<not> dfs frontier pool isRed"
      by (subst dfs.simps) simp
    with "1.prems"(1) show False by simp
  qed
  let ?node = "last frontier"
  from ne have "?node \<in> set frontier"
    by simp
  with "1.prems"(4) have "tracedFrom isRed S pool ?node" ..
  then obtain p where sp: "startPath isRed S p" and lp: "last p = ?node"
    and dj: "set p \<inter> set pool = {}"
    unfolding tracedFrom_def by (elim exE conjE)
  show ?case
  proof (cases "onTargetEdge isRed ?node")
    case True
    with sp lp show ?thesis
      by (intro exI [of _ p]) simp
  next
    case False
    obtain nf pl' where fl: "findLinkedNodes ?node pool = (nf, pl')"
      by (cases "findLinkedNodes ?node pool")
    have nf: "set nf = set (fst (findLinkedNodes ?node pool))"
      and pl': "set pl' = set pool - set nf" and dpl': "distinct pl'"
      using findLinkedNodes_rest [OF "1.prems"(2), of ?node] fl by simp_all
    have nt: "\<not> (isRed \<and> actionX ?node = 10)" "\<not> (\<not> isRed \<and> actionY ?node = 10)"
      using False by (auto simp: onTargetEdge_def)
    have step: "dfs frontier pool isRed = dfs (butlast frontier @ nf) pl' isRed"
      by (subst dfs.simps) (simp add: ne nt fl Let_def)
    have sub: "set pl' \<subseteq> S"
      using pl' "1.prems"(3) by auto
    have tr: "tracedFrom isRed S pl' n" if "n \<in> set (butlast frontier @ nf)" for n
    proof (cases "n \<in> set nf")
      case True
      then have npool: "n \<in> set pool" and adj: "hexAdjacent ?node n"
        using findLinkedNodes_adjacent [OF "1.prems"(2), of n ?node] nf by simp_all
      from npool dj have np: "n \<notin> set p"
        by auto
      from npool "1.prems"(3) have "n \<in> S"
        by auto
      with sp adj np have "startPath isRed S (p @ [n])"
        unfolding lp [symmetric] by (intro startPath_snoc)
      moreover have "set (p @ [n]) \<inter> set pl' = {}"
        using dj pl' True by auto
      ultimately show ?thesis
        unfolding tracedFrom_def by (intro exI [of _ "p @ [n]"]) simp
    next
      case False
      with that have "n \<in> set (butlast frontier)"
        by simp
      then have "n \<in> set frontier"
        by (rule in_set_butlastD)
      with "1.prems"(4) have "tracedFrom isRed S pool n" ..
      then obtain q where q: "startPath isRed S q" "last q = n" and qd: "set q \<inter> set pool = {}"
        unfolding tracedFrom_def by (elim exE conjE)
      from qd pl' have "set q \<inter> set pl' = {}"
        by auto
      with q show ?thesis
        unfolding tracedFrom_def by (intro exI [of _ q]) simp
    qed
    have run: "dfs (butlast frontier @ nf) pl' isRed"
      using step "1.prems"(1) by (rule iffD1)
    from tr have "\<forall>n\<in>set (butlast frontier @ nf). tracedFrom isRed S pl' n"
      by blast
    then show ?thesis
      by (rule "1.IH" [OF ne refl refl nt fl [symmetric] run dpl' sub])
  qed
qed

subsection \<open>The cells of a side, and the length of a chain\<close>

lemma set_pieceLocs: "set (pieceLocs s isRed) = {a. ownStone s isRed a}"
  unfolding pieceLocs_def set_cells by (auto simp: ownStone_def inGrid_def)

lemma distinct_pieceLocs: "distinct (pieceLocs s isRed)"
  unfolding pieceLocs_def by (rule distinct_cells) simp_all

lemma hexAdjacent_coord: "hexAdjacent a b \<Longrightarrow> edgeCoord isRed b \<le> edgeCoord isRed a + 1"
  by (auto simp: hexAdjacent_def edgeCoord_def)

lemma crosses_every_line:
  "successively hexAdjacent p \<Longrightarrow> p \<noteq> [] \<Longrightarrow> edgeCoord isRed (hd p) \<le> k \<Longrightarrow>
   k \<le> edgeCoord isRed (last p) \<Longrightarrow> \<exists>a\<in>set p. edgeCoord isRed a = k"
proof (induction p)
  case Nil
  then show ?case by simp
next
  case (Cons a p)
  show ?case
  proof (cases "edgeCoord isRed a = k")
    case True
    then show ?thesis by simp
  next
    case False
    with Cons.prems have lt: "edgeCoord isRed a < k"
      by simp
    with Cons.prems have ne: "p \<noteq> []"
      by auto
    with Cons.prems(1) have adj: "hexAdjacent a (hd p)" and succ: "successively hexAdjacent p"
      by (simp_all add: successively_Cons)
    from hexAdjacent_coord [OF adj, of isRed] lt have "edgeCoord isRed (hd p) \<le> k"
      by simp
    moreover from Cons.prems(4) ne have "k \<le> edgeCoord isRed (last p)"
      by simp
    ultimately have "\<exists>a\<in>set p. edgeCoord isRed a = k"
      using Cons.IH succ ne by blast
    then show ?thesis by auto
  qed
qed

lemma chain_edges:
  assumes "connectingChain s isRed p"
  shows "edgeCoord isRed (hd p) = 0" and "edgeCoord isRed (last p) = 10"
  using assms
  by (auto simp: connectingChain_def onStartEdge_def onTargetEdge_def edgeCoord_def)

lemma chain_crosses:
  assumes "connectingChain s isRed p" and "0 \<le> k" and "k \<le> 10"
  shows "\<exists>a\<in>set p. edgeCoord isRed a = k"
proof -
  from assms(1) have "successively hexAdjacent p" "p \<noteq> []"
    by (simp_all add: connectingChain_def)
  then show ?thesis
    using chain_edges [OF assms(1)] assms(2,3) by (intro crosses_every_line) simp_all
qed

lemma chain_length:
  assumes "connectingChain s isRed p"
  shows "11 \<le> card (set p)"
proof -
  have "{0..10} \<subseteq> edgeCoord isRed ` set p"
  proof
    fix k :: int
    assume "k \<in> {0..10}"
    then have "\<exists>a\<in>set p. edgeCoord isRed a = k"
      using chain_crosses [OF assms, of k] by simp
    then show "k \<in> edgeCoord isRed ` set p"
      by auto
  qed
  then have "card {0..10::int} \<le> card (edgeCoord isRed ` set p)"
    by (intro card_mono) simp_all
  also have "\<dots> \<le> card (set p)"
    by (rule card_image_le) simp
  finally show ?thesis by simp
qed

lemma chain_own:
  assumes "connectingChain s isRed p"
  shows "set p \<subseteq> set (pieceLocs s isRed)"
  using assms by (auto simp: connectingChain_def set_pieceLocs list_all_iff)

lemma pieceLocs_enough:
  assumes "connectingChain s isRed p"
  shows "11 \<le> length (pieceLocs s isRed)"
proof -
  have "card (set p) \<le> card (set (pieceLocs s isRed))"
    by (intro card_mono chain_own [OF assms]) simp
  with chain_length [OF assms] distinct_card [OF distinct_pieceLocs, of s isRed]
  show ?thesis by simp
qed

subsection \<open>\<open>oneSideTest\<close> reports a win exactly when a chain connects the edges\<close>

lemma oneSideTest_unfold:
  "oneSideTest s isRed =
     (11 \<le> length (pieceLocs s isRed)
      \<and> filter (onStartEdge isRed) (pieceLocs s isRed) \<noteq> []
      \<and> dfs (filter (onStartEdge isRed) (pieceLocs s isRed))
            (filter (\<lambda>a. \<not> onStartEdge isRed a) (pieceLocs s isRed)) isRed)"
  by (auto simp: oneSideTest_def Let_def)

lemma oneSideTest_complete:
  assumes c: "connectingChain s isRed p"
  shows "oneSideTest s isRed"
proof -
  let ?locs = "pieceLocs s isRed"
  let ?start = "filter (onStartEdge isRed) ?locs"
  let ?pool = "filter (\<lambda>a. \<not> onStartEdge isRed a) ?locs"
  from c have ne: "p \<noteq> []" and succ: "successively hexAdjacent p"
    and st: "onStartEdge isRed (hd p)" and tg: "onTargetEdge isRed (last p)"
    by (simp_all add: connectingChain_def)
  note own = chain_own [OF c]
  from ne st have "\<exists>x\<in>set p. onStartEdge isRed x"
    by (intro bexI [of _ "hd p"]) simp_all
  then obtain ys x zs where sp: "p = ys @ x # zs" and x: "onStartEdge isRed x"
    and zs: "\<forall>z\<in>set zs. \<not> onStartEdge isRed z"
    by (rule split_list_last_propE)
  from sp own x have xs: "x \<in> set ?start"
    by auto
  from sp own zs have zp: "set zs \<subseteq> set ?pool"
    by auto
  from succ have sz: "successively hexAdjacent (x # zs)"
    unfolding sp by (rule successively_suffix)
  from tg have "onTargetEdge isRed (last (x # zs))"
    unfolding sp by simp
  with xs zp sz have "linkedToTarget isRed ?start ?pool"
    unfolding linkedToTarget_def by (intro exI [of _ x] exI [of _ zs]) simp
  moreover have "distinct ?pool"
    using distinct_pieceLocs by (rule distinct_filter)
  moreover have "\<forall>a\<in>set ?start \<union> set ?pool. inGrid a"
    by (auto simp: set_pieceLocs ownStone_def)
  ultimately have "dfs ?start ?pool isRed"
    by (rule dfs_complete)
  moreover have "?start \<noteq> []"
  proof
    assume e: "?start = []"
    from xs show False
      unfolding e by simp
  qed
  ultimately show ?thesis
    unfolding oneSideTest_unfold using pieceLocs_enough [OF c] by simp
qed

lemma oneSideTest_sound:
  assumes t: "oneSideTest s isRed"
  shows "\<exists>p. connectingChain s isRed p"
proof -
  let ?locs = "pieceLocs s isRed"
  let ?start = "filter (onStartEdge isRed) ?locs"
  let ?pool = "filter (\<lambda>a. \<not> onStartEdge isRed a) ?locs"
  from t have run: "dfs ?start ?pool isRed"
    unfolding oneSideTest_unfold by simp
  have d: "distinct ?pool"
    using distinct_pieceLocs by (rule distinct_filter)
  have sub: "set ?pool \<subseteq> set ?locs"
    by auto
  have tr: "\<forall>n\<in>set ?start. tracedFrom isRed (set ?locs) ?pool n"
  proof
    fix n
    assume "n \<in> set ?start"
    then have "startPath isRed (set ?locs) [n]" and "set [n] \<inter> set ?pool = {}"
      by (auto simp: startPath_def)
    then show "tracedFrom isRed (set ?locs) ?pool n"
      unfolding tracedFrom_def by (intro exI [of _ "[n]"]) simp
  qed
  from dfs_sound [OF run d sub tr] obtain p where
    "startPath isRed (set ?locs) p" and "onTargetEdge isRed (last p)"
    by (elim exE conjE)
  then have "connectingChain s isRed p"
    by (auto simp: startPath_def connectingChain_def set_pieceLocs list_all_iff)
  then show ?thesis ..
qed

lemma ownStone_removeStone:
  "ownStone (removeStone s a) isRed b \<longleftrightarrow> ownStone s isRed b \<and> b \<noteq> a"
proof -
  obtain i j where a: "a = \<lparr>actionX = i, actionY = j\<rparr>"
    by (cases a)
  obtain k l where b: "b = \<lparr>actionX = k, actionY = l\<rparr>"
    by (cases b)
  show ?thesis
    unfolding a b by (auto simp: ownStone_def removeStone_def inGrid_def)
qed

lemma chain_removeStone:
  assumes "connectingChain (removeStone s a) isRed q"
  shows "connectingChain s isRed q" and "a \<notin> set q"
  using assms by (auto simp: connectingChain_def list_all_iff ownStone_removeStone)

subsection \<open>A board with a single chain\<close>

lemma upto_0_10: "[0..10] = [0, 1, 2, 3, 4, 5, 6, 7, 8, 9, 10::int]"
  by (simp add: upto.simps)

lemma columnChain_connecting: "connectingChain columnBoard True columnChain"
  by (simp add: connectingChain_def columnChain_def upto_0_10 ownStone_def inGrid_def
      columnBoard_def setState_def GameState_init_def hexAdjacent_def onStartEdge_def onTargetEdge_def)

lemma ascending_column:
  "successively hexAdjacent (a # q) \<Longrightarrow> distinct (a # q) \<Longrightarrow>
   \<forall>b\<in>set (a # q). actionY b = 0 \<and> actionX a \<le> actionX b \<Longrightarrow>
   a # q = map (\<lambda>i. \<lparr>actionX = i, actionY = 0\<rparr>) [actionX a..actionX a + int (length q)]"
proof (induction q arbitrary: a)
  case Nil
  then show ?case by simp
next
  case (Cons b q)
  from Cons.prems(1) have adj: "hexAdjacent a b" and succ: "successively hexAdjacent (b # q)"
    by simp_all
  from Cons.prems(3) have ya: "actionY a = 0" and yb: "actionY b = 0" and le: "actionX a \<le> actionX b"
    by simp_all
  from adj ya yb le have xb: "actionX b = actionX a + 1"
    unfolding hexAdjacent_def by auto
  have "actionY c = 0 \<and> actionX b \<le> actionX c" if "c \<in> set (b # q)" for c
  proof -
    from that Cons.prems(3) have c: "actionY c = 0" "actionX a \<le> actionX c"
      by auto
    from that Cons.prems(2) have "c \<noteq> a"
      by auto
    with c ya have "actionX c \<noteq> actionX a"
      by (cases a, cases c) simp
    with c xb show ?thesis by simp
  qed
  then have all: "\<forall>c\<in>set (b # q). actionY c = 0 \<and> actionX b \<le> actionX c"
    by blast
  from Cons.prems(2) have "distinct (b # q)"
    by simp
  from Cons.IH [OF succ this all]
  have "b # q = map (\<lambda>i. \<lparr>actionX = i, actionY = 0\<rparr>) [actionX a + 1..actionX a + 1 + int (length q)]"
    unfolding xb .
  moreover have "a = \<lparr>actionX = actionX a, actionY = 0\<rparr>"
    using ya by (cases a) simp
  moreover have "[actionX a..actionX a + int (length (b # q))]
      = actionX a # [actionX a + 1..actionX a + 1 + int (length q)]"
    by (subst upto_rec1) (simp_all add: add.commute add.left_commute)
  ultimately show ?case
    by (metis list.simps(9))
qed

lemma columnChain_unique:
  assumes q: "connectingChain columnBoard True q"
  shows "q = columnChain"
proof -
  from q obtain a r where ar: "q = a # r"
    by (cases q) (simp_all add: connectingChain_def)
  from q have own: "\<forall>b\<in>set q. inGrid b \<and> actionY b = 0"
    by (auto simp: connectingChain_def list_all_iff ownStone_def columnBoard_def setState_def GameState_init_def split: if_splits)
  from q have xa: "actionX a = 0"
    unfolding ar by (simp add: connectingChain_def onStartEdge_def)
  from own have "\<forall>b\<in>set (a # r). actionY b = 0 \<and> actionX a \<le> actionX b"
    unfolding ar xa by (simp add: inGrid_def)
  moreover from q have "successively hexAdjacent (a # r)" "distinct (a # r)"
    unfolding ar by (simp_all add: connectingChain_def)
  ultimately have e: "q = map (\<lambda>i. \<lparr>actionX = i, actionY = 0\<rparr>) [0..int (length r)]"
    unfolding ar using ascending_column [of a r] xa by simp
  from q have "actionX (last q) = 10"
    by (simp add: connectingChain_def onTargetEdge_def)
  moreover have "actionX (last q) = int (length r)"
    unfolding e by (simp add: last_map upto_rec2)
  ultimately have "int (length r) = 10"
    by simp
  with e show ?thesis
    by (simp add: columnChain_def)
qed

text \<open>
  C1. If the stones of a side contain a connecting chain, whatever its shape,
  \<open>oneSideTest\<close> reports a win for that side and \<open>checkTermination\<close> reports a winner
  (red, when the chain is red). If moreover the chain is the only connecting chain of
  that side, then after removing any one stone of it \<open>oneSideTest\<close> reports no win for
  that side, and \<open>checkTermination\<close> does not report that side as the winner.
\<close>

theorem oneSideTest_chain:
  "(connectingChain s isRed p \<longrightarrow>
      oneSideTest s isRed \<and> checkTermination s \<noteq> 0 \<and> (isRed \<longrightarrow> checkTermination s = 1))
   \<and> (connectingChain s isRed p \<and> (\<forall>q. connectingChain s isRed q \<longrightarrow> q = p) \<and> a \<in> set p
        \<longrightarrow> \<not> oneSideTest (removeStone s a) isRed
            \<and> checkTermination (removeStone s a) \<noteq> (if isRed then 1 else - 1))"
proof (intro conjI impI)
  assume "connectingChain s isRed p"
  then have w: "oneSideTest s isRed"
    by (rule oneSideTest_complete)
  then show "oneSideTest s isRed" .
  from w show "checkTermination s \<noteq> 0"
    by (cases isRed) (simp_all add: checkTermination_def)
  from w show "checkTermination s = 1" if "isRed"
    using that by (simp add: checkTermination_def)
next
  assume h: "connectingChain s isRed p \<and> (\<forall>q. connectingChain s isRed q \<longrightarrow> q = p) \<and> a \<in> set p"
  show n: "\<not> oneSideTest (removeStone s a) isRed"
  proof
    assume "oneSideTest (removeStone s a) isRed"
    then obtain q where q: "connectingChain (removeStone s a) isRed q"
      using oneSideTest_sound by blast
    from chain_removeStone [OF q] h have "q = p" and "a \<notin> set q"
      by simp_all
    with h show False
      by simp
  qed
  then show "checkTermination (removeStone s a) \<noteq> (if isRed then 1 else - 1)"
    by (cases isRed) (simp_all add: checkTermination_def)
qed

theorem oneSideTest_chain_witness:
  "connectingChain columnBoard True columnChain
   \<and> \<lparr>actionX = 5, actionY = 0\<rparr> \<in> set columnChain
   \<and> oneSideTest columnBoard True
   \<and> checkTermination columnBoard = 1
   \<and> \<not> oneSideTest (removeStone columnBoard \<lparr>actionX = 5, actionY = 0\<rparr>) True
   \<and> checkTermination (removeStone columnBoard \<lparr>actionX = 5, actionY = 0\<rparr>) \<noteq> 1"
proof -
  have m: "\<lparr>actionX = 5, actionY = 0\<rparr> \<in> set columnChain"
    by (simp add: columnChain_def upto_0_10)
  have u: "\<forall>q. connectingChain columnBoard True q \<longrightarrow> q = columnChain"
    using columnChain_unique by blast
  from oneSideTest_chain [of columnBoard True columnChain "\<lparr>actionX = 5, actionY = 0\<rparr>"]
    columnChain_connecting m u
  show ?thesis
    by simp
qed

text \<open>
  C9. The search terminates on every frontier and every pool: all arguments are in the
  domain of \<open>dfs\<close>. On a recursive step the neighbours found are moved from the pool to
  the frontier, none is copied, so the length of the frontier plus the length of the pool
  strictly decreases.
\<close>

theorem dfs_terminates:
  "dfs_dom (frontier, pieceList, isRed)
   \<and> (frontier \<noteq> [] \<longrightarrow>
        (case findLinkedNodes (last frontier) pieceList of
           (newFrontier, pieceList') \<Rightarrow>
             length newFrontier + length pieceList' = length pieceList
             \<and> length (butlast frontier @ newFrontier) + length pieceList'
                 < length frontier + length pieceList))"
proof
  show "dfs_dom (frontier, pieceList, isRed)"
  proof (induction "length frontier + length pieceList" arbitrary: frontier pieceList isRed
      rule: less_induct)
    case less
    have step: "dfs_dom (butlast frontier @ newFrontier, pieceList', r)"
      if "frontier \<noteq> []" and "(newFrontier, pieceList') = findLinkedNodes (last frontier) pieceList"
      for newFrontier pieceList' r
    proof -
      from that have "length (butlast frontier @ newFrontier) + length pieceList'
          < length frontier + length pieceList"
        using dfs_measure_step(2) [of frontier "last frontier" pieceList newFrontier pieceList']
        by simp
      then show ?thesis
        by (rule less)
    qed
    show ?case
      by (rule dfs.domintros) (rule step, assumption, assumption)+
  qed
next
  show "frontier \<noteq> [] \<longrightarrow>
        (case findLinkedNodes (last frontier) pieceList of
           (newFrontier, pieceList') \<Rightarrow>
             length newFrontier + length pieceList' = length pieceList
             \<and> length (butlast frontier @ newFrontier) + length pieceList'
                 < length frontier + length pieceList)"
  proof
    assume ne: "frontier \<noteq> []"
    obtain nf p' where fl: "findLinkedNodes (last frontier) pieceList = (nf, p')"
      by (cases "findLinkedNodes (last frontier) pieceList")
    from dfs_measure_step [OF ne fl] show "case findLinkedNodes (last frontier) pieceList of
           (newFrontier, pieceList') \<Rightarrow>
             length newFrontier + length pieceList' = length pieceList
             \<and> length (butlast frontier @ newFrontier) + length pieceList'
                 < length frontier + length pieceList"
      unfolding fl by simp
  qed
qed

theorem dfs_terminates_witness:
  "[\<lparr>actionX = 9, actionY = 0\<rparr>] \<noteq> []
   \<and> findLinkedNodes \<lparr>actionX = 9, actionY = 0\<rparr>
        [\<lparr>actionX = 10, actionY = 0\<rparr>, \<lparr>actionX = 3, actionY = 3\<rparr>]
       = ([\<lparr>actionX = 10, actionY = 0\<rparr>], [\<lparr>actionX = 3, actionY = 3\<rparr>])
   \<and> dfs_dom ([\<lparr>actionX = 9, actionY = 0\<rparr>],
               [\<lparr>actionX = 10, actionY = 0\<rparr>, \<lparr>actionX = 3, actionY = 3\<rparr>], True)
   \<and> dfs [\<lparr>actionX = 9, actionY = 0\<rparr>]
          [\<lparr>actionX = 10, actionY = 0\<rparr>, \<lparr>actionX = 3, actionY = 3\<rparr>] True"
proof -
  have f: "findLinkedNodes \<lparr>actionX = 9, actionY = 0\<rparr>
        [\<lparr>actionX = 10, actionY = 0\<rparr>, \<lparr>actionX = 3, actionY = 3\<rparr>]
       = ([\<lparr>actionX = 10, actionY = 0\<rparr>], [\<lparr>actionX = 3, actionY = 3\<rparr>])"
    by (simp add: findLinkedNodes_def linkIfPresent_def)
  have d: "dfs [\<lparr>actionX = 9, actionY = 0\<rparr>]
          [\<lparr>actionX = 10, actionY = 0\<rparr>, \<lparr>actionX = 3, actionY = 3\<rparr>] True"
    by (simp add: dfs.simps f)
  from dfs_terminates [of "[\<lparr>actionX = 9, actionY = 0\<rparr>]"
      "[\<lparr>actionX = 10, actionY = 0\<rparr>, \<lparr>actionX = 3, actionY = 3\<rparr>]" True] f d
  show ?thesis
    by simp
qed

section \<open>Rounding\<close>

text \<open>
  Facts about \<open>round_fp\<close>: it is monotone, it never yields NaN, it keeps the powers of two
  of the format, it is within half a unit in the last place of its argument, and its
  value on a given number is found from the binade of the number and the nearest integer
  multiple of the unit.
\<close>

lemma pow2_powr: "pow2 k = 2 powr (real_of_int k)"
proof (cases "0 \<le> k")
  case True
  have "(2::real) powr real (nat k) = 2 ^ nat k"
    by (rule powr_realpow) simp
  moreover from True have "real (nat k) = real_of_int k"
    by simp
  ultimately have "(2::real) powr real_of_int k = 2 ^ nat k"
    by (simp only:)
  with True show ?thesis
    by (simp only: pow2_def if_True)
next
  case False
  have "(2::real) powr real (nat (- k)) = 2 ^ nat (- k)"
    by (rule powr_realpow) simp
  moreover from False have "real (nat (- k)) = - real_of_int k"
    by simp
  ultimately have "(2::real) powr (- real_of_int k) = 2 ^ nat (- k)"
    by (simp only:)
  then have "1 / (2::real) powr real_of_int k = 2 ^ nat (- k)"
    by (simp only: powr_minus_divide)
  then have "(2::real) powr real_of_int k = 1 / 2 ^ nat (- k)"
    by (simp add: field_simps)
  with False show ?thesis
    by (simp only: pow2_def if_False)
qed

lemma pow2_pos: "0 < pow2 k"
  by (simp add: pow2_powr)

lemma pow2_add: "pow2 (a + b) = pow2 a * pow2 b"
  by (simp add: pow2_powr powr_add)

lemma pow2_mono: "a \<le> b \<Longrightarrow> pow2 a \<le> pow2 b"
  by (simp add: pow2_powr)

lemma pow2_nat: "pow2 (int n) = of_int (2 ^ n)"
  by (simp add: pow2_def)

lemma floor_log_bounds:
  assumes "0 < x"
  shows "pow2 \<lfloor>log 2 x\<rfloor> \<le> x" and "x < pow2 (\<lfloor>log 2 x\<rfloor> + 1)"
proof -
  have "real_of_int \<lfloor>log 2 x\<rfloor> \<le> log 2 x"
    by simp
  then have "2 powr real_of_int \<lfloor>log 2 x\<rfloor> \<le> 2 powr log 2 x"
    by (simp only: powr_le_cancel_iff [of 2] one_less_numeral_iff semiring_norm)
  with assms show "pow2 \<lfloor>log 2 x\<rfloor> \<le> x"
    by (simp add: pow2_powr)
  have "log 2 x < real_of_int (\<lfloor>log 2 x\<rfloor> + 1)"
    by linarith
  then have "2 powr log 2 x < 2 powr real_of_int (\<lfloor>log 2 x\<rfloor> + 1)"
    by (simp only: powr_less_cancel_iff [of 2] one_less_numeral_iff semiring_norm)
  with assms show "x < pow2 (\<lfloor>log 2 x\<rfloor> + 1)"
    by (simp add: pow2_powr)
qed

lemma floor_log_eq:
  assumes "0 < x" and "pow2 e \<le> x" and "x < pow2 (e + 1)"
  shows "\<lfloor>log 2 x\<rfloor> = e"
proof -
  from assms(1,2) have "real_of_int e \<le> log 2 x"
    by (simp add: pow2_powr le_log_iff)
  moreover from assms(1,3) have "log 2 x < real_of_int (e + 1)"
    by (simp add: pow2_powr log_less_iff)
  ultimately show ?thesis
    by linarith
qed

lemma rne_cases: "rne y = \<lfloor>y\<rfloor> \<or> rne y = \<lfloor>y\<rfloor> + 1"
  by (simp add: rne_def Let_def)

lemma rne_same_floor:
  assumes "a \<le> b" and "\<lfloor>a\<rfloor> = \<lfloor>b\<rfloor>"
  shows "rne a \<le> rne b"
proof -
  define f where "f = \<lfloor>b\<rfloor>"
  define da where "da = a - of_int f"
  define db where "db = b - of_int f"
  have d: "da \<le> db"
    using assms(1) by (simp add: da_def db_def)
  have ra: "rne a = (if da < 1 / 2 then f else if 1 / 2 < da then f + 1 else if even f then f else f + 1)"
    by (simp add: rne_def Let_def assms(2) f_def da_def)
  have rb: "rne b = (if db < 1 / 2 then f else if 1 / 2 < db then f + 1 else if even f then f else f + 1)"
    by (simp add: rne_def Let_def f_def db_def)
  show ?thesis
    unfolding ra rb using d by (simp split: if_splits)
qed

lemma rne_mono:
  assumes "a \<le> b"
  shows "rne a \<le> rne b"
proof (cases "\<lfloor>a\<rfloor> = \<lfloor>b\<rfloor>")
  case True
  with assms show ?thesis
    by (rule rne_same_floor)
next
  case False
  with assms have "\<lfloor>a\<rfloor> + 1 \<le> \<lfloor>b\<rfloor>"
    using floor_mono [of a b] by linarith
  with rne_cases [of a] rne_cases [of b] show ?thesis
    by linarith
qed

lemma rne_of_int: "rne (of_int k) = k"
  by (simp add: rne_def)

lemma round_val_mono:
  assumes "0 < x" and "x \<le> x'" and "0 < p"
  shows "round_val p emin x \<le> round_val p emin x'"
proof -
  define l where "l = \<lfloor>log 2 x\<rfloor>"
  define l' where "l' = \<lfloor>log 2 x'\<rfloor>"
  define e where "e = max emin l"
  define e' where "e' = max emin l'"
  define q where "q = pow2 (e - int p + 1)"
  define q' where "q' = pow2 (e' - int p + 1)"
  have x': "0 < x'"
    using assms by simp
  have rv: "round_val p emin x = of_int (rne (x / q)) * q"
    by (simp add: round_val_def Let_def q_def e_def l_def)
  have rv': "round_val p emin x' = of_int (rne (x' / q')) * q'"
    by (simp add: round_val_def Let_def q'_def e'_def l'_def)
  have qpos: "0 < q" and q'pos: "0 < q'"
    by (simp_all add: q_def q'_def pow2_pos)
  have "log 2 x \<le> log 2 x'"
    using assms by simp
  then have ll: "l \<le> l'"
    unfolding l_def l'_def by (rule floor_mono)
  then have ee: "e \<le> e'"
    by (simp add: e_def e'_def)
  show ?thesis
  proof (cases "e = e'")
    case True
    then have qq: "q' = q"
      by (simp add: q_def q'_def)
    have "x / q \<le> x' / q"
      using assms(2) qpos by (simp add: divide_right_mono)
    then have "rne (x / q) \<le> rne (x' / q)"
      by (rule rne_mono)
    then have "real_of_int (rne (x / q)) * q \<le> real_of_int (rne (x' / q)) * q"
      using qpos by simp
    then show ?thesis
      by (simp add: rv rv' qq)
  next
    case False
    with ee have lt: "e + 1 \<le> e'"
      by simp
    then have e'l: "e' = l'"
      by (simp add: e'_def e_def)
    have "x < pow2 (l + 1)"
      unfolding l_def using assms(1) by (rule floor_log_bounds)
    also have "\<dots> \<le> pow2 (e + 1)"
      by (rule pow2_mono) (simp add: e_def)
    finally have xlt: "x < pow2 (e + 1)" .
    have split: "pow2 (e + 1) = pow2 (int p) * q"
      unfolding q_def pow2_add [symmetric] by simp
    have "x / q \<le> pow2 (int p)"
      using xlt qpos by (simp add: split pos_divide_le_eq)
    then have "rne (x / q) \<le> rne (pow2 (int p))"
      by (rule rne_mono)
    then have "rne (x / q) \<le> 2 ^ p"
      by (simp only: pow2_nat rne_of_int)
    then have "real_of_int (rne (x / q)) \<le> real_of_int (2 ^ p)"
      by (simp only: of_int_le_iff)
    then have "real_of_int (rne (x / q)) * q \<le> pow2 (int p) * q"
      using qpos by (simp only: pow2_nat mult_le_cancel_right_pos)
    then have low: "round_val p emin x \<le> pow2 (e + 1)"
      by (simp only: rv split)
    have "pow2 l' \<le> x'"
      unfolding l'_def using x' by (rule floor_log_bounds)
    then have xge: "pow2 e' \<le> x'"
      by (simp only: e'l)
    have split': "pow2 e' = pow2 (int (p - 1)) * q'"
      unfolding q'_def pow2_add [symmetric] using assms(3) by (simp add: of_nat_diff)
    have "pow2 (int (p - 1)) \<le> x' / q'"
      using xge q'pos by (simp add: split' pos_le_divide_eq)
    then have "rne (pow2 (int (p - 1))) \<le> rne (x' / q')"
      by (rule rne_mono)
    then have "2 ^ (p - 1) \<le> rne (x' / q')"
      by (simp only: pow2_nat rne_of_int)
    then have "real_of_int (2 ^ (p - 1)) \<le> real_of_int (rne (x' / q'))"
      by (simp only: of_int_le_iff)
    then have "pow2 (int (p - 1)) * q' \<le> real_of_int (rne (x' / q')) * q'"
      using q'pos by (simp only: pow2_nat mult_le_cancel_right_pos)
    then have high: "pow2 e' \<le> round_val p emin x'"
      by (simp only: rv' split')
    have "pow2 (e + 1) \<le> pow2 e'"
      using lt by (rule pow2_mono)
    with low high show ?thesis
      by linarith
  qed
qed

lemma round_val_nonneg:
  assumes "0 < x"
  shows "0 \<le> round_val p emin x"
proof -
  define q where "q = pow2 (max emin \<lfloor>log 2 x\<rfloor> - int p + 1)"
  have qpos: "0 < q"
    by (simp add: q_def pow2_pos)
  have "rne 0 \<le> rne (x / q)"
    by (rule rne_mono) (use assms qpos in simp)
  then have "0 \<le> rne (x / q)"
    using rne_of_int [of 0] by simp
  then have "0 \<le> real_of_int (rne (x / q)) * q"
    using qpos by simp
  then show ?thesis
    by (simp add: round_val_def Let_def q_def)
qed

lemma round_val_eval:
  assumes "pow2 e \<le> x" and "x < pow2 (e + 1)" and "emin \<le> e"
  shows "round_val p emin x = of_int (rne (x / pow2 (e - int p + 1))) * pow2 (e - int p + 1)"
proof -
  have "0 < x"
    using assms(1) pow2_pos [of e] by linarith
  then have "\<lfloor>log 2 x\<rfloor> = e"
    using assms(1,2) by (rule floor_log_eq)
  with assms(3) show ?thesis
    by (simp add: round_val_def Let_def max_def)
qed

lemma round_mag_mono:
  assumes "0 < x" and "x \<le> x'" and "0 < p"
  shows "fle (round_mag p emin emax x) (round_mag p emin emax x')"
  using round_val_mono [OF assms, of emin]
  by (simp add: round_mag_def Let_def)

lemma round_mag_cases:
  assumes "0 < x"
  shows "(\<exists>y. round_mag p emin emax x = Fin y \<and> 0 \<le> y) \<or> round_mag p emin emax x = PInf"
  using round_val_nonneg [OF assms, of p emin]
  by (simp add: round_mag_def Let_def)

lemma round_fp_cases:
  "(\<exists>y. round_fp p emin emax x = Fin y \<and> (0 \<le> x \<longrightarrow> 0 \<le> y) \<and> (x \<le> 0 \<longrightarrow> y \<le> 0))
   \<or> (round_fp p emin emax x = PInf \<and> 0 < x) \<or> (round_fp p emin emax x = NInf \<and> x < 0)"
proof -
  consider "x = 0" | "0 < x" | "x < 0"
    by linarith
  then show ?thesis
  proof cases
    case 1
    then show ?thesis by (simp add: round_fp_def)
  next
    case 2
    with round_mag_cases [OF 2, of p emin emax] show ?thesis
      by (auto simp: round_fp_def)
  next
    case 3
    then have "0 < - x" by simp
    from round_mag_cases [OF this, of p emin emax] 3 show ?thesis
      by (auto simp: round_fp_def)
  qed
qed

lemma fle_fneg:
  assumes "fle a b"
  shows "fle (fneg b) (fneg a)"
  using assms by (cases a; cases b) simp_all

lemma round_fp_mono:
  assumes "x \<le> y" and "0 < p"
  shows "fle (round_fp p emin emax x) (round_fp p emin emax y)"
proof -
  consider "0 < x" | "y < 0" | "x \<le> 0" "0 \<le> y"
    by linarith
  then show ?thesis
  proof cases
    case 1
    with assms have "0 < y" by simp
    with 1 round_mag_mono [OF 1 assms(1) assms(2), of emin emax] show ?thesis
      by (simp add: round_fp_def)
  next
    case 2
    with assms have x: "x < 0" by simp
    from 2 have "0 < - y" by simp
    moreover from assms have "- y \<le> - x" by simp
    ultimately have "fle (round_mag p emin emax (- y)) (round_mag p emin emax (- x))"
      using assms(2) by (rule round_mag_mono)
    then have "fle (fneg (round_mag p emin emax (- x))) (fneg (round_mag p emin emax (- y)))"
      by (rule fle_fneg)
    with 2 x show ?thesis
      by (simp add: round_fp_def)
  next
    case 3
    from round_fp_cases [of p emin emax x] round_fp_cases [of p emin emax y] 3 show ?thesis
      by auto
  qed
qed

lemma fle_refl: "a \<noteq> NaN \<Longrightarrow> fle a a"
  by (cases a) simp_all

lemma fle_trans: "fle a b \<Longrightarrow> fle b c \<Longrightarrow> fle a c"
  by (cases a; cases b; cases c) simp_all

lemma fle_between:
  assumes "fle (Fin a) v" and "fle v (Fin b)"
  shows "\<exists>y. v = Fin y \<and> a \<le> y \<and> y \<le> b"
  using assms by (cases v) simp_all

lemma rne_eval:
  assumes "real_of_int k - 1 / 2 < y" and "y < real_of_int k + 1 / 2"
  shows "rne y = k"
proof (cases "real_of_int k \<le> y")
  case True
  with assms have "\<lfloor>y\<rfloor> = k" by linarith
  with assms show ?thesis
    by (simp add: rne_def Let_def)
next
  case False
  with assms have f: "\<lfloor>y\<rfloor> = k - 1" by linarith
  have "1 / 2 < y - real_of_int (k - 1)"
    using assms by simp
  with f show ?thesis
    by (simp add: rne_def Let_def)
qed

lemma pow2_Suc: "pow2 (k + 1) = 2 * pow2 k"
proof -
  have "pow2 1 = 2"
    by (simp add: pow2_def)
  then show ?thesis
    by (simp add: pow2_add)
qed

lemma round_fp_eval_pos:
  assumes "pow2 e \<le> x" and "x < pow2 (e + 1)" and "emin \<le> e"
    and "real_of_int k - 1 / 2 < x / pow2 (e - int p + 1)"
    and "x / pow2 (e - int p + 1) < real_of_int k + 1 / 2"
    and "real_of_int k * pow2 (e - int p + 1) \<le> (2 - pow2 (1 - int p)) * pow2 emax"
  shows "round_fp p emin emax x = Fin (real_of_int k * pow2 (e - int p + 1))"
proof -
  have x: "0 < x"
    using assms(1) pow2_pos [of e] by linarith
  have "round_val p emin x = of_int (rne (x / pow2 (e - int p + 1))) * pow2 (e - int p + 1)"
    using assms(1-3) by (rule round_val_eval)
  moreover have "rne (x / pow2 (e - int p + 1)) = k"
    using assms(4,5) by (rule rne_eval)
  ultimately have "round_val p emin x = real_of_int k * pow2 (e - int p + 1)"
    by simp
  with x assms(6) show ?thesis
    by (simp add: round_fp_def round_mag_def Let_def)
qed

lemma round_fp_minus: "round_fp p emin emax (- x) = fneg (round_fp p emin emax x)"
proof -
  have "fneg (fneg v) = v" for v
    by (cases v) simp_all
  then show ?thesis
    by (simp add: round_fp_def)
qed

lemma round_fp_pow2:
  assumes "emin \<le> k" and "k \<le> emax" and "0 < p"
  shows "round_fp p emin emax (pow2 k) = Fin (pow2 k)"
proof -
  have s: "pow2 k = pow2 (int (p - 1)) * pow2 (k - int p + 1)"
    unfolding pow2_add [symmetric] using assms(3) by (simp add: of_nat_diff)
  have q: "0 < pow2 (k - int p + 1)"
    by (rule pow2_pos)
  have d: "pow2 k / pow2 (k - int p + 1) = real_of_int (2 ^ (p - 1))"
    using q by (simp add: s pow2_nat)
  have "pow2 (1 - int p) \<le> pow2 0"
    using assms(3) by (intro pow2_mono) simp
  then have "1 \<le> 2 - pow2 (1 - int p)"
    by (simp add: pow2_def)
  moreover have "pow2 k \<le> pow2 emax"
    using assms(2) by (rule pow2_mono)
  ultimately have "1 * pow2 k \<le> (2 - pow2 (1 - int p)) * pow2 emax"
    using pow2_pos [of k] by (intro mult_mono) simp_all
  then have m: "real_of_int (2 ^ (p - 1)) * pow2 (k - int p + 1) \<le> (2 - pow2 (1 - int p)) * pow2 emax"
    using s by (simp add: pow2_nat)
  have "round_fp p emin emax (pow2 k) = Fin (real_of_int (2 ^ (p - 1)) * pow2 (k - int p + 1))"
  proof (rule round_fp_eval_pos [OF _ _ assms(1) _ _ m])
    show "pow2 k \<le> pow2 k" by simp
    show "pow2 k < pow2 (k + 1)"
      using pow2_pos [of k] by (simp add: pow2_Suc)
    show "real_of_int (2 ^ (p - 1)) - 1 / 2 < pow2 k / pow2 (k - int p + 1)"
      unfolding d by simp
    show "pow2 k / pow2 (k - int p + 1) < real_of_int (2 ^ (p - 1)) + 1 / 2"
      unfolding d by simp
  qed
  then show ?thesis
    using s by (simp add: pow2_nat)
qed


lemma to_float_mono: "x \<le> y \<Longrightarrow> fle (to_float x) (to_float y)"
  unfolding to_float_def by (rule round_fp_mono) simp_all

lemma to_double_mono: "x \<le> y \<Longrightarrow> fle (to_double x) (to_double y)"
  unfolding to_double_def by (rule round_fp_mono) simp_all



lemma to_float_pow2: "- 126 \<le> k \<Longrightarrow> k \<le> 127 \<Longrightarrow> to_float (pow2 k) = Fin (pow2 k)"
  unfolding to_float_def by (rule round_fp_pow2) simp_all

lemma to_double_pow2: "- 1022 \<le> k \<Longrightarrow> k \<le> 1023 \<Longrightarrow> to_double (pow2 k) = Fin (pow2 k)"
  unfolding to_double_def by (rule round_fp_pow2) simp_all

lemma to_float_0: "to_float 0 = Fin 0"
  by (simp add: to_float_def round_fp_def)


lemma to_float_between:
  assumes "pow2 j \<le> x" and "x \<le> pow2 k" and "- 126 \<le> j" and "k \<le> 127"
  shows "\<exists>y. to_float x = Fin y \<and> pow2 j \<le> y \<and> y \<le> pow2 k"
proof -
  have "pow2 j \<le> pow2 k"
    using assms(1,2) by simp
  then have jk: "j \<le> k"
    by (simp add: pow2_powr)
  have "fle (to_float (pow2 j)) (to_float x)" and "fle (to_float x) (to_float (pow2 k))"
    using assms(1,2) by (simp_all add: to_float_mono)
  moreover have "to_float (pow2 j) = Fin (pow2 j)" and "to_float (pow2 k) = Fin (pow2 k)"
    using assms(3,4) jk by (simp_all add: to_float_pow2)
  ultimately show ?thesis
    by (simp add: fle_between)
qed

lemma to_double_between:
  assumes "pow2 j \<le> x" and "x \<le> pow2 k" and "- 1022 \<le> j" and "k \<le> 1023"
  shows "\<exists>y. to_double x = Fin y \<and> pow2 j \<le> y \<and> y \<le> pow2 k"
proof -
  have "pow2 j \<le> pow2 k"
    using assms(1,2) by simp
  then have jk: "j \<le> k"
    by (simp add: pow2_powr)
  have "fle (to_double (pow2 j)) (to_double x)" and "fle (to_double x) (to_double (pow2 k))"
    using assms(1,2) by (simp_all add: to_double_mono)
  moreover have "to_double (pow2 j) = Fin (pow2 j)" and "to_double (pow2 k) = Fin (pow2 k)"
    using assms(3,4) jk by (simp_all add: to_double_pow2)
  ultimately show ?thesis
    by (simp add: fle_between)
qed

lemma to_float_upto:
  assumes "0 \<le> x" and "x \<le> pow2 k" and "- 126 \<le> k" and "k \<le> 127"
  shows "\<exists>y. to_float x = Fin y \<and> 0 \<le> y \<and> y \<le> pow2 k"
proof -
  have "fle (to_float 0) (to_float x)" and "fle (to_float x) (to_float (pow2 k))"
    using assms(1,2) by (simp_all add: to_float_mono)
  moreover have "to_float (pow2 k) = Fin (pow2 k)"
    using assms(3,4) by (rule to_float_pow2)
  ultimately show ?thesis
    by (simp add: to_float_0 fle_between)
qed


lemma rne_error: "\<bar>real_of_int (rne y) - y\<bar> \<le> 1 / 2"
proof -
  have "real_of_int \<lfloor>y\<rfloor> \<le> y" and "y < real_of_int \<lfloor>y\<rfloor> + 1"
    by linarith+
  then show ?thesis
    by (auto simp: rne_def Let_def abs_le_iff)
qed

lemma round_val_error:
  assumes "0 < x"
  shows "\<bar>round_val p emin x - x\<bar> \<le> pow2 (max emin \<lfloor>log 2 x\<rfloor> - int p)"
proof -
  define q where "q = pow2 (max emin \<lfloor>log 2 x\<rfloor> - int p + 1)"
  have qpos: "0 < q"
    by (simp add: q_def pow2_pos)
  have q2: "q = 2 * pow2 (max emin \<lfloor>log 2 x\<rfloor> - int p)"
    unfolding q_def by (rule pow2_Suc)
  have "round_val p emin x - x = (real_of_int (rne (x / q)) - x / q) * q"
    using qpos by (simp add: round_val_def Let_def q_def algebra_simps)
  then have "\<bar>round_val p emin x - x\<bar> = \<bar>real_of_int (rne (x / q)) - x / q\<bar> * q"
    using qpos by (simp add: abs_mult)
  also have "\<dots> \<le> 1 / 2 * q"
    using rne_error [of "x / q"] qpos by (intro mult_right_mono) simp_all
  finally show ?thesis
    by (simp add: q2)
qed

lemma round_fp_error:
  assumes "0 < x" and "round_fp p emin emax x = Fin y"
  shows "\<bar>y - x\<bar> \<le> max (x * pow2 (- int p)) (pow2 (emin - int p))"
proof -
  from assms have y: "y = round_val p emin x"
    by (simp add: round_fp_def round_mag_def Let_def split: if_splits)
  show ?thesis
  proof (cases "emin \<le> \<lfloor>log 2 x\<rfloor>")
    case True
    have "pow2 (\<lfloor>log 2 x\<rfloor> - int p) = pow2 \<lfloor>log 2 x\<rfloor> * pow2 (- int p)"
      unfolding pow2_add [symmetric] by simp
    also have "\<dots> \<le> x * pow2 (- int p)"
      using floor_log_bounds(1) [OF assms(1)] pow2_pos [of "- int p"] by (intro mult_right_mono) simp_all
    finally have "pow2 (max emin \<lfloor>log 2 x\<rfloor> - int p) \<le> x * pow2 (- int p)"
      using True by (simp add: max_def)
    with round_val_error [OF assms(1), of p emin] show ?thesis
      unfolding y by linarith
  next
    case False
    then have "pow2 (max emin \<lfloor>log 2 x\<rfloor> - int p) = pow2 (emin - int p)"
      by (simp add: max_def)
    with round_val_error [OF assms(1), of p emin] show ?thesis
      unfolding y by linarith
  qed
qed

subsection \<open>Order and arithmetic on \<open>fp\<close>\<close>

lemma fle_NInf [simp]: "fle NInf v = (v \<noteq> NaN)"
  by (cases v) simp_all

lemma fle_PInf [simp]: "fle v PInf = (v \<noteq> NaN)"
  by (cases v) simp_all

lemma fle_not_NaN: "fle a b \<Longrightarrow> a \<noteq> NaN \<and> b \<noteq> NaN"
  by (cases a; cases b) simp_all














section \<open>Backpropagation\<close>

lemma atDepth_inj: "atDepth h n d1 \<Longrightarrow> atDepth h n d2 \<Longrightarrow> d1 = d2"
proof (induction d1 arbitrary: n d2)
  case 0
  then show ?case by (cases d2) (auto split: option.splits)
next
  case (Suc d1)
  then show ?case by (cases d2) (auto split: option.splits)
qed

lemma length_ancestors: "atDepth h n d \<Longrightarrow> length (ancestors h n d) = Suc d"
  by (induction d arbitrary: n) (auto split: option.splits)

lemma atDepth_ancestors:
  "atDepth h n d \<Longrightarrow> k \<le> d \<Longrightarrow> atDepth h (ancestors h n d ! k) (d - k)"
proof (induction d arbitrary: n k)
  case 0
  then show ?case by simp
next
  case (Suc d)
  show ?case
  proof (cases k)
    case 0
    with Suc.prems show ?thesis by simp
  next
    case (Suc j)
    with Suc.prems Suc.IH [of _ j] show ?thesis
      by (auto split: option.splits)
  qed
qed

lemma ancestors_above:
  assumes "atDepth h n (Suc d)" "deref h n = Some nd" "parent nd = Some p"
  shows "n \<notin> set (ancestors h p d)" and "atDepth h p d"
proof -
  from assms show p: "atDepth h p d" by simp
  show "n \<notin> set (ancestors h p d)"
  proof
    assume "n \<in> set (ancestors h p d)"
    then obtain k where k: "k < Suc d" "ancestors h p d ! k = n"
      using length_ancestors [OF p] by (auto simp: in_set_conv_nth)
    then have "atDepth h n (d - k)"
      using atDepth_ancestors [OF p, of k] by simp
    with assms(1) have "Suc d = d - k" by (rule atDepth_inj)
    then show False by simp
  qed
qed

lemma rev_upt_Suc: "rev [0..<Suc (Suc d)] = map Suc (rev [0..<Suc d]) @ [0]"
proof -
  have "[0..<Suc (Suc d)] = 0 # map Suc [0..<Suc d]"
    by (simp only: map_Suc_upt upt_conv_Cons [of 0 "Suc (Suc d)"] zero_less_Suc)
  then show ?thesis by (simp only: rev.simps rev_map)
qed

lemma update_from_root_chain:
  "atDepth h n D \<Longrightarrow>
   \<exists>h'. update_from_root h n r
          = Some (h', map (\<lambda>k. (ancestors h n D ! k, discounted r k)) (rev [0..<Suc D]))
       \<and> length h' = length h
       \<and> (\<forall>k\<le>D. h' ! (ancestors h n D ! k) = update (h ! (ancestors h n D ! k)) (discounted r k))
       \<and> (\<forall>a. a \<notin> set (ancestors h n D) \<longrightarrow> h' ! a = h ! a)"
proof (induction D arbitrary: n r)
  case 0
  then obtain nd where nd: "deref h n = Some nd" "parent nd = None"
    by (auto split: option.splits)
  then have "n < length h" "h ! n = nd"
    by (auto simp: deref_def split: if_splits)
  with nd show ?case
    by (subst update_from_root.simps) simp
next
  case (Suc d)
  then obtain nd p where nd: "deref h n = Some nd" "parent nd = Some p"
    by (auto split: option.splits)
  note above = ancestors_above [OF Suc.prems nd]
  have nv: "n < length h" "h ! n = nd"
    using nd by (auto simp: deref_def split: if_splits)
  let ?r = "narrow (fmul to_double (fneg r) (to_double (95 / 100)))"
  from Suc.IH [OF above(2), of ?r] obtain h1 where
    u: "update_from_root h p ?r
          = Some (h1, map (\<lambda>k. (ancestors h p d ! k, discounted ?r k)) (rev [0..<Suc d]))"
    and l: "length h1 = length h"
    and v: "\<forall>k\<le>d. h1 ! (ancestors h p d ! k) = update (h ! (ancestors h p d ! k)) (discounted ?r k)"
    and o: "\<forall>a. a \<notin> set (ancestors h p d) \<longrightarrow> h1 ! a = h ! a"
    by blast
  let ?h' = "h1[n := update (h1 ! n) r]"
  have anc: "ancestors h n (Suc d) = n # ancestors h p d"
    using nd by simp
  have pw: "discounted ?r k = discounted r (Suc k)" for k
    by simp
  have 1: "update_from_root h n r
          = Some (?h', map (\<lambda>k. (ancestors h n (Suc d) ! k, discounted r k)) (rev [0..<Suc (Suc d)]))"
    apply (subst update_from_root.simps)
    apply (simp only: nd option.case u Option.bind.simps prod.case anc rev_upt_Suc pw)
    apply (simp add: comp_def)
    done
  have 2: "length ?h' = length h"
    using l by simp
  have hn: "h1 ! n = h ! n"
    using o above(1) by blast
  have 3: "?h' ! (ancestors h n (Suc d) ! k) = update (h ! (ancestors h n (Suc d) ! k)) (discounted r k)"
    if "k \<le> Suc d" for k
  proof (cases k)
    case 0
    then show ?thesis using nv l hn by (simp add: anc)
  next
    case (Suc j)
    with that have j: "j \<le> d" by simp
    then have "ancestors h p d ! j \<in> set (ancestors h p d)"
      using length_ancestors [OF above(2)] by simp
    with above(1) have ne: "ancestors h p d ! j \<noteq> n" by metis
    have a: "ancestors h n (Suc d) ! k = ancestors h p d ! j"
      unfolding Suc anc by (rule nth_Cons_Suc)
    have "h1 ! (ancestors h p d ! j) = update (h ! (ancestors h p d ! j)) (discounted r k)"
      unfolding Suc pw [symmetric] using v j by blast
    moreover have "?h' ! (ancestors h p d ! j) = h1 ! (ancestors h p d ! j)"
      using ne by simp
    ultimately show ?thesis
      unfolding a by (simp only:)
  qed
  have 4: "?h' ! a = h ! a" if "a \<notin> set (ancestors h n (Suc d))" for a
  proof -
    from that have "a \<noteq> n" "a \<notin> set (ancestors h p d)"
      unfolding anc by simp_all
    with o show ?thesis by simp
  qed
  from 1 2 3 4 show ?case by blast
qed

lemma double_095: "to_double (95 / 100) = Fin (8556839292003942 / 9007199254740992)"
proof -
  have "round_fp 53 (- 1022) 1023 (95 / 100) = Fin (real_of_int 8556839292003942 * pow2 (- 1 - int 53 + 1))"
    by (rule round_fp_eval_pos) (simp_all add: pow2_def)
  then show ?thesis
    by (simp add: to_double_def pow2_def)
qed

lemma discount_1:
  "narrow (fmul to_double (fneg (Fin 1)) (to_double (95 / 100))) = Fin (- (15938355 / 16777216))"
proof -
  have "round_fp 53 (- 1022) 1023 (8556839292003942 / 9007199254740992)
      = Fin (real_of_int 8556839292003942 * pow2 (- 1 - int 53 + 1))"
    by (rule round_fp_eval_pos) (simp_all add: pow2_def)
  then have d: "to_double (- (8556839292003942 / 9007199254740992))
      = Fin (- (8556839292003942 / 9007199254740992))"
    by (simp add: to_double_def round_fp_minus pow2_def)
  have "round_fp 24 (- 126) 127 (8556839292003942 / 9007199254740992)
      = Fin (real_of_int 15938355 * pow2 (- 1 - int 24 + 1))"
    by (rule round_fp_eval_pos) (simp_all add: pow2_def)
  then have f: "to_float (- (8556839292003942 / 9007199254740992)) = Fin (- (15938355 / 16777216))"
    by (simp add: to_float_def round_fp_minus pow2_def)
  have s: "fmul to_double (fneg (Fin 1)) (Fin c) = to_double (- c)" for c
    by simp
  show ?thesis
    by (simp only: double_095 s d narrow.simps f)
qed

lemma discount_2:
  "narrow (fmul to_double (fneg (Fin (- (15938355 / 16777216)))) (to_double (95 / 100)))
     = Fin (15141437 / 16777216)"
proof -
  have "round_fp 53 (- 1022) 1023 (15938355 / 16777216 * (8556839292003942 / 9007199254740992))
      = Fin (real_of_int 8128997225398272 * pow2 (- 1 - int 53 + 1))"
    by (rule round_fp_eval_pos) (simp_all add: pow2_def)
  then have d: "to_double (15938355 / 16777216 * (8556839292003942 / 9007199254740992))
      = Fin (60565749 / 67108864)"
    by (simp add: to_double_def pow2_def)
  have "round_fp 24 (- 126) 127 (60565749 / 67108864)
      = Fin (real_of_int 15141437 * pow2 (- 1 - int 24 + 1))"
    by (rule round_fp_eval_pos) (simp_all add: pow2_def)
  then have f: "to_float (60565749 / 67108864) = Fin (15141437 / 16777216)"
    by (simp add: to_float_def pow2_def)
  have s: "fmul to_double (fneg (Fin (- a))) (Fin c) = to_double (a * c)" for a c
    by simp
  show ?thesis
    by (simp only: double_095 s d narrow.simps f)
qed

lemma discount_error_pos:
  assumes "pow2 (- 126) \<le> a" and "a \<le> pow2 127"
  shows "\<exists>y. narrow (to_double (a * (8556839292003942 / 9007199254740992))) = Fin y
           \<and> \<bar>y - 95 / 100 * a\<bar> \<le> pow2 (- 23) * a"
proof -
  define C :: real where "C = 8556839292003942 / 9007199254740992"
  define z where "z = a * C"
  have apos: "0 < a"
    using assms(1) pow2_pos [of "- 126"] by linarith
  have C: "1 / 2 \<le> C" "C \<le> 1" "\<bar>C - 95 / 100\<bar> \<le> pow2 (- 54)"
    by (simp_all add: C_def pow2_def)
  have zpos: "0 < z"
    using apos C(1) by (simp add: z_def)
  have zle: "z \<le> a"
    using apos C(2) by (simp add: z_def mult_left_le)
  have "pow2 (- 127) \<le> z"
  proof -
    have "pow2 (- 127) = pow2 (- 126) * (1 / 2)"
      using pow2_Suc [of "- 127"] by simp
    also have "\<dots> \<le> a * C"
      using assms(1) C(1) pow2_pos [of "- 126"] by (intro mult_mono) simp_all
    finally show ?thesis
      by (simp add: z_def)
  qed
  moreover have "z \<le> pow2 127"
    using zle assms(2) by simp
  ultimately obtain w where w: "to_double z = Fin w" "pow2 (- 127) \<le> w" "w \<le> pow2 127"
    using to_double_between [of "- 127" z 127] by auto
  have wpos: "0 < w"
    using w(2) pow2_pos [of "- 127"] by linarith
  have "fle (to_double z) (to_double a)"
    using zle by (rule to_double_mono)
  have ew: "\<bar>w - z\<bar> \<le> z * pow2 (- 53)"
  proof -
    have "\<bar>w - z\<bar> \<le> max (z * pow2 (- int 53)) (pow2 (- 1022 - int 53))"
      using zpos w(1) unfolding to_double_def by (rule round_fp_error)
    moreover have "pow2 (- 1022 - int 53) \<le> z * pow2 (- int 53)"
    proof -
      have "pow2 (- 1022 - int 53) = pow2 (- 1022) * pow2 (- int 53)"
        unfolding pow2_add [symmetric] by simp
      also have "pow2 (- 1022) \<le> pow2 (- 127)"
        by (rule pow2_mono) simp
      finally show ?thesis
        using \<open>pow2 (- 127) \<le> z\<close> pow2_pos [of "- int 53"]
        by (meson mult_right_mono order_trans less_imp_le)
    qed
    ultimately show ?thesis
      by simp
  qed
  from wpos w(3) obtain y where y: "to_float w = Fin y"
    using to_float_upto [of w 127] by auto
  have ey: "\<bar>y - w\<bar> \<le> max (w * pow2 (- 24)) (pow2 (- 150))"
  proof -
    have "\<bar>y - w\<bar> \<le> max (w * pow2 (- int 24)) (pow2 (- 126 - int 24))"
      using wpos y unfolding to_float_def by (rule round_fp_error)
    then show ?thesis
      by simp
  qed
  have zC: "z * (1 + pow2 (- 53)) \<le> a"
  proof -
    have "C * (1 + pow2 (- 53)) \<le> 1"
      by (simp add: C_def pow2_def)
    then have "a * (C * (1 + pow2 (- 53))) \<le> a * 1"
      using apos by (intro mult_left_mono) simp_all
    then show ?thesis
      by (simp add: z_def mult.assoc)
  qed
  have wle: "w \<le> a"
  proof -
    have "w \<le> z + z * pow2 (- 53)"
      using ew by (simp add: abs_le_iff)
    with zC show ?thesis
      by (simp add: algebra_simps)
  qed
  have e1: "\<bar>y - w\<bar> \<le> a * pow2 (- 24)"
  proof -
    have 1: "w * pow2 (- 24) \<le> a * pow2 (- 24)"
      using wle pow2_pos [of "- 24"] by (intro mult_right_mono) simp_all
    have "pow2 (- 150) = pow2 (- 126) * pow2 (- 24)"
      unfolding pow2_add [symmetric] by simp
    also have "\<dots> \<le> a * pow2 (- 24)"
      using assms(1) pow2_pos [of "- 24"] by (intro mult_right_mono) simp_all
    finally have "pow2 (- 150) \<le> a * pow2 (- 24)" .
    with 1 ey show ?thesis
      by simp
  qed
  have e2: "\<bar>w - z\<bar> \<le> a * pow2 (- 53)"
  proof -
    have "z * pow2 (- 53) \<le> a * pow2 (- 53)"
      using zle pow2_pos [of "- 53"] by (intro mult_right_mono) simp_all
    with ew show ?thesis
      by simp
  qed
  have e3: "\<bar>z - 95 / 100 * a\<bar> \<le> a * pow2 (- 54)"
  proof -
    have "z - 95 / 100 * a = a * (C - 95 / 100)"
      by (simp add: z_def algebra_simps)
    then have "\<bar>z - 95 / 100 * a\<bar> = a * \<bar>C - 95 / 100\<bar>"
      using apos by (simp add: abs_mult)
    also have "\<dots> \<le> a * pow2 (- 54)"
      using C(3) apos by (intro mult_left_mono) simp_all
    finally show ?thesis .
  qed
  have "\<bar>y - 95 / 100 * a\<bar> \<le> \<bar>y - w\<bar> + \<bar>w - z\<bar> + \<bar>z - 95 / 100 * a\<bar>"
    by simp
  also have "\<dots> \<le> a * pow2 (- 24) + a * pow2 (- 53) + a * pow2 (- 54)"
    using e1 e2 e3 by simp
  also have "\<dots> = a * (pow2 (- 24) + pow2 (- 53) + pow2 (- 54))"
    by (simp add: algebra_simps)
  also have "\<dots> \<le> a * pow2 (- 23)"
    using apos by (intro mult_left_mono) (simp_all add: pow2_def)
  finally have "\<bar>y - 95 / 100 * a\<bar> \<le> pow2 (- 23) * a"
    by (simp add: mult.commute)
  with w(1) y show ?thesis
    by (simp add: z_def C_def)
qed

lemma discount_error:
  assumes "pow2 (- 126) \<le> \<bar>a\<bar>" and "\<bar>a\<bar> \<le> pow2 127"
  shows "\<exists>b. narrow (fmul to_double (fneg (Fin a)) (to_double (95 / 100))) = Fin b
           \<and> \<bar>b + 95 / 100 * a\<bar> \<le> pow2 (- 23) * \<bar>a\<bar> \<and> a * b < 0"
proof -
  let ?C = "8556839292003942 / 9007199254740992 :: real"
  from discount_error_pos [OF assms] obtain y where
    y: "narrow (to_double (\<bar>a\<bar> * ?C)) = Fin y" "\<bar>y - 95 / 100 * \<bar>a\<bar>\<bar> \<le> pow2 (- 23) * \<bar>a\<bar>"
    by blast
  have apos: "0 < \<bar>a\<bar>"
    using assms(1) pow2_pos [of "- 126"] by linarith
  have "pow2 (- 23) * \<bar>a\<bar> < 95 / 100 * \<bar>a\<bar>"
    using apos by (intro mult_strict_right_mono) (simp_all add: pow2_def)
  with y(2) have ypos: "0 < y"
    by (simp add: abs_le_iff)
  have s: "fmul to_double (fneg (Fin a)) (Fin c) = to_double (- a * c)" for c
    by simp
  have n: "narrow (fneg v) = fneg (narrow v)" for v
    by (cases v) (simp_all add: to_float_def round_fp_minus)
  have d: "to_double (- x) = fneg (to_double x)" for x
    by (simp add: to_double_def round_fp_minus)
  show ?thesis
  proof (cases "0 \<le> a")
    case True
    then have "narrow (to_double (- a * ?C)) = Fin (- y)"
      using y(1) by (simp add: d n)
    moreover have "\<bar>- y + 95 / 100 * a\<bar> \<le> pow2 (- 23) * \<bar>a\<bar>"
      using y(2) True by (simp add: abs_minus_commute)
    moreover have "a * (- y) < 0"
      using True apos ypos by (simp add: mult_pos_pos)
    ultimately show ?thesis
      by (simp only: double_095 s) blast
  next
    case False
    then have "narrow (to_double (- a * ?C)) = Fin y"
      using y(1) by simp
    moreover have "\<bar>y + 95 / 100 * a\<bar> \<le> pow2 (- 23) * \<bar>a\<bar>"
      using y(2) False by simp
    moreover have "a * y < 0"
      using False ypos by (simp add: mult_neg_pos)
    ultimately show ?thesis
      by (simp only: double_095 s) blast
  qed
qed

lemma float_of_float:
  "to_float (15141437 / 16777216) = Fin (15141437 / 16777216)"
  "to_float 10 = Fin 10"
  "to_float (15141437 / 16777216 / 10) = Fin (6056575 / 67108864)"
  "to_float (6056575 / 67108864) = Fin (6056575 / 67108864)"
proof -
  have "round_fp 24 (- 126) 127 (15141437 / 16777216) = Fin (real_of_int 15141437 * pow2 (- 1 - int 24 + 1))"
    by (rule round_fp_eval_pos) (simp_all add: pow2_def)
  then show "to_float (15141437 / 16777216) = Fin (15141437 / 16777216)"
    by (simp add: to_float_def pow2_def)
  have "round_fp 24 (- 126) 127 10 = Fin (real_of_int 10485760 * pow2 (3 - int 24 + 1))"
    by (rule round_fp_eval_pos) (simp_all add: pow2_def)
  then show "to_float 10 = Fin 10"
    by (simp add: to_float_def pow2_def)
  have "round_fp 24 (- 126) 127 (15141437 / 16777216 / 10) = Fin (real_of_int 12113150 * pow2 (- 4 - int 24 + 1))"
    by (rule round_fp_eval_pos) (simp_all add: pow2_def)
  then show "to_float (15141437 / 16777216 / 10) = Fin (6056575 / 67108864)"
    by (simp add: to_float_def pow2_def)
  have "round_fp 24 (- 126) 127 (6056575 / 67108864) = Fin (real_of_int 12113150 * pow2 (- 4 - int 24 + 1))"
    by (rule round_fp_eval_pos) (simp_all add: pow2_def)
  then show "to_float (6056575 / 67108864) = Fin (6056575 / 67108864)"
    by (simp add: to_float_def pow2_def)
qed

lemma mean_root:
  "fadd to_float (Fin 0) (fdiv to_float (fsub to_float (Fin (15141437 / 16777216)) (Fin 0)) (to_float (of_int (9 + 1))))
     = Fin (6056575 / 67108864)"
proof -
  have a: "fsub to_float (Fin x) (Fin 0) = to_float x" for x
    by (simp add: fsub_def)
  have b: "real_of_int (9 + 1) = 10"
    by simp
  have c: "fdiv to_float (Fin x) (Fin 10) = to_float (x / 10)" for x
    by simp
  have d: "fadd to_float (Fin 0) (Fin x) = to_float x" for x
    by simp
  show ?thesis
    by (simp only: a b c d float_of_float)
qed

text \<open>
  C2, as the program has it. For a node \<open>n\<close> at depth \<open>D\<close> below the root, with visit
  counts below the largest \<open>int\<close> from \<open>n\<close> up to the root so that no increment overflows,
  \<open>update_from_root\<close> with result \<open>r\<close> returns. The node itself is passed \<open>r\<close>, and the
  ancestor \<open>k\<close> levels above it (the root for \<open>k = D\<close>) is passed the \<open>float\<close> that comes
  from \<open>r\<close> by \<open>k\<close> rounds of negating, multiplying by the \<open>double\<close> 0.95 and narrowing to
  \<open>float\<close>. While a value is a normal \<open>float\<close>, of magnitude between 2 to the -126 and 2 to
  the 127, the value one level up is -0.95 times it up to a relative error of 2 to the
  -23, and of the opposite sign. Every node of the chain gets one more visit, and its quality \<open>q\<close> becomes
  \<open>q + (v - q) / visits\<close> for the value \<open>v\<close> it is passed and its new visit count, each of
  the three operations rounded to \<open>float\<close>; its other fields and all other nodes stay as
  they are. The calls of \<open>update\<close> are made from the root down to \<open>n\<close>: every ancestor
  records its value before the node does.
\<close>

theorem update_from_root_discounts:
  assumes "atDepth h n D"
    and "\<forall>a\<in>set (ancestors h n D). nVisits (h ! a) < 2147483647"
  shows "\<exists>h'. update_from_root h n r
          = Some (h', map (\<lambda>k. (ancestors h n D ! k, discounted r k)) (rev [0..<Suc D]))
       \<and> length h' = length h
       \<and> (\<forall>k\<le>D. h' ! (ancestors h n D ! k)
                    = (h ! (ancestors h n D ! k))
                        \<lparr>nVisits := nVisits (h ! (ancestors h n D ! k)) + 1,
                         quality :=
                           fadd to_float (quality (h ! (ancestors h n D ! k)))
                             (fdiv to_float
                                (fsub to_float (discounted r k) (quality (h ! (ancestors h n D ! k))))
                                (to_float (of_int (nVisits (h ! (ancestors h n D ! k)) + 1))))\<rparr>)
       \<and> (\<forall>a. a \<notin> set (ancestors h n D) \<longrightarrow> h' ! a = h ! a)
       \<and> ancestors h n D ! 0 = n
       \<and> isRoot (h ! (ancestors h n D ! D))
       \<and> discounted r 0 = r
       \<and> (\<forall>k. discounted r (Suc k)
                = narrow (fmul to_double (fneg (discounted r k)) (to_double (95 / 100))))
       \<and> (\<forall>k a. discounted r k = Fin a \<and> pow2 (- 126) \<le> \<bar>a\<bar> \<and> \<bar>a\<bar> \<le> pow2 127 \<longrightarrow>
             (\<exists>b. discounted r (Suc k) = Fin b \<and> \<bar>b + 95 / 100 * a\<bar> \<le> pow2 (- 23) * \<bar>a\<bar>
                   \<and> a * b < 0))"
proof -
  have "atDepth h (ancestors h n D ! D) 0"
    using atDepth_ancestors [OF assms(1), of D] by simp
  then have 5: "isRoot (h ! (ancestors h n D ! D))"
    by (auto simp: isRoot_def deref_def split: option.splits if_splits)
  have 6: "ancestors h n D ! 0 = n"
    by (cases D) simp_all
  have 7: "discounted r 0 = r"
    by simp
  have s: "discounted x (Suc k) = narrow (fmul to_double (fneg (discounted x k)) (to_double (95 / 100)))"
    for x k
    by (induction k arbitrary: x) simp_all
  then have 8: "\<forall>k. discounted r (Suc k)
                = narrow (fmul to_double (fneg (discounted r k)) (to_double (95 / 100)))"
    by (intro allI)
  have "\<exists>b. discounted r (Suc k) = Fin b \<and> \<bar>b + 95 / 100 * a\<bar> \<le> pow2 (- 23) * \<bar>a\<bar> \<and> a * b < 0"
    if "discounted r k = Fin a" "pow2 (- 126) \<le> \<bar>a\<bar>" "\<bar>a\<bar> \<le> pow2 127" for k a
    unfolding s that(1) using that(2,3) by (rule discount_error)
  then have 9: "\<forall>k a. discounted r k = Fin a \<and> pow2 (- 126) \<le> \<bar>a\<bar> \<and> \<bar>a\<bar> \<le> pow2 127 \<longrightarrow>
             (\<exists>b. discounted r (Suc k) = Fin b \<and> \<bar>b + 95 / 100 * a\<bar> \<le> pow2 (- 23) * \<bar>a\<bar>
                   \<and> a * b < 0)"
    by blast
  from update_from_root_chain [OF assms(1), of r] obtain h' where
    1: "update_from_root h n r
          = Some (h', map (\<lambda>k. (ancestors h n D ! k, discounted r k)) (rev [0..<Suc D]))"
    and 2: "length h' = length h"
    and u: "\<forall>k\<le>D. h' ! (ancestors h n D ! k) = update (h ! (ancestors h n D ! k)) (discounted r k)"
    and 4: "\<forall>a. a \<notin> set (ancestors h n D) \<longrightarrow> h' ! a = h ! a"
    by blast
  from u have 3: "\<forall>k\<le>D. h' ! (ancestors h n D ! k)
                    = (h ! (ancestors h n D ! k))
                        \<lparr>nVisits := nVisits (h ! (ancestors h n D ! k)) + 1,
                         quality :=
                           fadd to_float (quality (h ! (ancestors h n D ! k)))
                             (fdiv to_float
                                (fsub to_float (discounted r k) (quality (h ! (ancestors h n D ! k))))
                                (to_float (of_int (nVisits (h ! (ancestors h n D ! k)) + 1))))\<rparr>"
    by (simp add: update_def Let_def)
  show ?thesis
    by (intro exI [of _ h'] conjI) (fact 1 2 3 4 5 6 7 8 9)+
qed

theorem update_from_root_discounts_witness:
  "atDepth sampleTree 3 2 \<and> ancestors sampleTree 3 2 = [3, 1, 0]
   \<and> map (\<lambda>a. nVisits (sampleTree ! a)) [3, 1, 0] = [0, 7, 9]
   \<and> map_option snd (update_from_root sampleTree 3 (Fin 1))
       = Some [(0, Fin (15141437 / 16777216)), (1, Fin (- (15938355 / 16777216))), (3, Fin 1)]
   \<and> map_option (\<lambda>(h', calls). nVisits (h' ! 0)) (update_from_root sampleTree 3 (Fin 1)) = Some 10
   \<and> map_option (\<lambda>(h', calls). quality (h' ! 0)) (update_from_root sampleTree 3 (Fin 1))
       = Some (Fin (6056575 / 67108864))"
proof -
  have d: "atDepth sampleTree 3 2"
    by (simp add: sampleTree_def deref_def MCTSNode_new_def numeral_2_eq_2)
  have a: "ancestors sampleTree 3 2 = [3, 1, 0]"
    by (simp add: sampleTree_def deref_def MCTSNode_new_def numeral_2_eq_2)
  have u: "[0..<Suc 2] = [0, 1, 2]"
    by (simp add: upt_rec)
  have dk: "discounted (Fin 1) 0 = Fin 1" "discounted (Fin 1) 1 = Fin (- (15938355 / 16777216))"
    "discounted (Fin 1) 2 = Fin (15141437 / 16777216)"
    by (simp_all only: discounted.simps One_nat_def numeral_2_eq_2 discount_1 discount_2)
  have b: "\<forall>a\<in>set (ancestors sampleTree 3 2). nVisits (sampleTree ! a) < 2147483647"
    unfolding a by (simp add: sampleTree_def MCTSNode_new_def)
  from update_from_root_discounts [OF d b, of "Fin 1"] obtain h' where
    r: "update_from_root sampleTree 3 (Fin 1)
          = Some (h', map (\<lambda>k. (ancestors sampleTree 3 2 ! k, discounted (Fin 1) k)) (rev [0..<Suc 2]))"
    and v: "\<forall>k\<le>2. h' ! (ancestors sampleTree 3 2 ! k)
                    = (sampleTree ! (ancestors sampleTree 3 2 ! k))
                        \<lparr>nVisits := nVisits (sampleTree ! (ancestors sampleTree 3 2 ! k)) + 1,
                         quality :=
                           fadd to_float (quality (sampleTree ! (ancestors sampleTree 3 2 ! k)))
                             (fdiv to_float
                                (fsub to_float (discounted (Fin 1) k) (quality (sampleTree ! (ancestors sampleTree 3 2 ! k))))
                                (to_float (of_int (nVisits (sampleTree ! (ancestors sampleTree 3 2 ! k)) + 1))))\<rparr>"
    by blast
  have s0: "[3, 1, 0] ! 2 = (0::nat)"
    by simp
  have n0: "nVisits (sampleTree ! 0) = 9" "quality (sampleTree ! 0) = Fin 0"
    by (simp_all add: sampleTree_def MCTSNode_new_def)
  from v have "h' ! ([3, 1, 0] ! 2)
      = (sampleTree ! ([3, 1, 0] ! 2))
          \<lparr>nVisits := nVisits (sampleTree ! ([3, 1, 0] ! 2)) + 1,
           quality :=
             fadd to_float (quality (sampleTree ! ([3, 1, 0] ! 2)))
               (fdiv to_float
                  (fsub to_float (discounted (Fin 1) 2) (quality (sampleTree ! ([3, 1, 0] ! 2))))
                  (to_float (of_int (nVisits (sampleTree ! ([3, 1, 0] ! 2)) + 1))))\<rparr>"
    unfolding a by blast
  then have h0: "h' ! 0 = (sampleTree ! 0)\<lparr>nVisits := 9 + 1, quality := Fin (6056575 / 67108864)\<rparr>"
    by (simp only: s0 n0 dk mean_root)
  have c: "map (\<lambda>k. (ancestors sampleTree 3 2 ! k, discounted (Fin 1) k)) (rev [0..<Suc 2])
      = [(0, Fin (15141437 / 16777216)), (1, Fin (- (15938355 / 16777216))), (3, Fin 1)]"
  proof -
    have rv: "rev [0, 1, 2::nat] = [2, 1, 0]"
      by simp
    have nth: "[3, 1, 0::nat] ! 2 = 0" "[3, 1, 0::nat] ! 1 = 1" "[3, 1, 0::nat] ! 0 = 3"
      by simp_all
    show ?thesis
      by (simp only: a u rv list.map nth dk)
  qed
  have w: "map (\<lambda>a. nVisits (sampleTree ! a)) [3, 1, 0] = [0, 7, 9]"
    by (simp add: sampleTree_def MCTSNode_new_def)
  from d a w r h0 show ?thesis
    unfolding c by simp
qed

text \<open>
  For the result 1 at depth 2 the parent is passed -15938355/16777216 and the root
  15141437/16777216: these are not -0.95 and 0.9025, the products of 1 with the powers of
  -0.95.
\<close>

theorem update_from_root_exact_counterexample:
  "map_option snd (update_from_root sampleTree 3 (Fin 1))
     = Some [(0, Fin (15141437 / 16777216)), (1, Fin (- (15938355 / 16777216))), (3, Fin 1)]
   \<and> Fin (- (15938355 / 16777216)) \<noteq> Fin (1 * (- (95 / 100)) ^ 1)
   \<and> Fin (15141437 / 16777216) \<noteq> Fin (1 * (- (95 / 100)) ^ 2)"
proof -
  have 0: "update_from_root sampleTree 0 (Fin (15141437 / 16777216))
      = Some (sampleTree[0 := update (sampleTree ! 0) (Fin (15141437 / 16777216))],
              [(0, Fin (15141437 / 16777216))])"
    by (subst update_from_root.simps) (simp add: sampleTree_def deref_def MCTSNode_new_def)
  have p1: "deref sampleTree 1 = Some (sampleTree ! 1)" "parent (sampleTree ! 1) = Some 0"
    and p3: "deref sampleTree 3 = Some (sampleTree ! 3)" "parent (sampleTree ! 3) = Some 1"
    by (simp_all add: sampleTree_def deref_def MCTSNode_new_def)
  have 1: "map_option snd (update_from_root sampleTree 1 (Fin (- (15938355 / 16777216))))
      = Some [(0, Fin (15141437 / 16777216)), (1, Fin (- (15938355 / 16777216)))]"
    by (subst update_from_root.simps) (simp only: p1 option.case discount_2 0, simp)
  have 3: "map_option snd (update_from_root sampleTree 3 (Fin 1))
      = Some [(0, Fin (15141437 / 16777216)), (1, Fin (- (15938355 / 16777216))), (3, Fin 1)]"
    using 1 by (subst update_from_root.simps) (simp only: p3 option.case discount_1, auto)
  show ?thesis
    using 3 by (simp add: power2_eq_square)
qed

section \<open>Re-rooting\<close>

text \<open>
  C3. With a valid root: when the root has a child under the action,
  \<open>updateWithMove\<close> makes that child the root, with its visit count, quality and children
  as before and its parent pointer cleared, and leaves every other node as it was; when
  the root has no child under the action, the new root is a new node with no visits, no
  children and no parent. In both cases the state is the old state after \<open>plays\<close> of the
  action.
\<close>

theorem updateWithMove_reroots:
  assumes "deref h (root_node m) = Some rt"
  shows "(\<forall>c cn. map_of (children rt) a = Some c \<and> deref h c = Some cn \<longrightarrow>
            (\<exists>h' m' nd. updateWithMove h m a = Some (h', m')
               \<and> root_node m' = c
               \<and> deref h' (root_node m') = Some nd
               \<and> nVisits nd = nVisits cn \<and> quality nd = quality cn
               \<and> children nd = children cn
               \<and> parent nd = None \<and> isRoot nd
               \<and> (\<forall>x. x \<noteq> c \<longrightarrow> h' ! x = h ! x)
               \<and> state m' = snd (plays (state m) a)))
       \<and> (map_of (children rt) a = None \<longrightarrow>
            (\<exists>h' m' nd. updateWithMove h m a = Some (h', m')
               \<and> deref h' (root_node m') = Some nd
               \<and> nVisits nd = 0 \<and> quality nd = Fin 0 \<and> isLeaf nd \<and> isRoot nd
               \<and> (\<forall>x < length h. h' ! x = h ! x)
               \<and> state m' = snd (plays (state m) a)))"
  using assms
  by (auto simp: updateWithMove_def deref_def setParentNull_def isRoot_def isLeaf_def
      MCTSNode_new_def Let_def nth_append split: if_splits)

theorem updateWithMove_reroots_witness:
  "deref sampleTree (root_node sampleMCTS) = Some (sampleTree ! 0)
   \<and> (\<exists>h' m' nd. updateWithMove sampleTree sampleMCTS \<lparr>actionX = 1, actionY = 2\<rparr> = Some (h', m')
         \<and> root_node m' = 1 \<and> deref h' (root_node m') = Some nd
         \<and> nVisits nd = 7 \<and> quality nd = Fin (1 / 4) \<and> isRoot nd
         \<and> totalPieces (state m') = 1)
   \<and> (\<exists>h' m' nd. updateWithMove sampleTree sampleMCTS \<lparr>actionX = 9, actionY = 9\<rparr> = Some (h', m')
         \<and> deref h' (root_node m') = Some nd \<and> nVisits nd = 0 \<and> isRoot nd
         \<and> totalPieces (state m') = 1)"
proof -
  have r: "deref sampleTree (root_node sampleMCTS) = Some (sampleTree ! 0)"
    by (simp add: sampleTree_def sampleMCTS_def deref_def)
  have c: "map_of (children (sampleTree ! 0)) \<lparr>actionX = 1, actionY = 2\<rparr> = Some 1"
    "deref sampleTree 1 = Some (sampleTree ! 1)"
    "map_of (children (sampleTree ! 0)) \<lparr>actionX = 9, actionY = 9\<rparr> = None"
    by (simp_all add: sampleTree_def deref_def MCTSNode_new_def)
  have n: "nVisits (sampleTree ! 1) = 7" "quality (sampleTree ! 1) = Fin (1 / 4)"
    by (simp_all add: sampleTree_def MCTSNode_new_def)
  have p: "totalPieces (snd (plays (state sampleMCTS) \<lparr>actionX = 1, actionY = 2\<rparr>)) = 1"
    "totalPieces (snd (plays (state sampleMCTS) \<lparr>actionX = 9, actionY = 9\<rparr>)) = 1"
    by (simp_all add: sampleMCTS_def plays_def GameState_init_def)
  note t1 = updateWithMove_reroots [OF r, of "\<lparr>actionX = 1, actionY = 2\<rparr>"]
  note t2 = updateWithMove_reroots [OF r, of "\<lparr>actionX = 9, actionY = 9\<rparr>"]
  from t1 c(1,2) obtain h1 m1 nd1 where
    a: "updateWithMove sampleTree sampleMCTS \<lparr>actionX = 1, actionY = 2\<rparr> = Some (h1, m1)"
      "root_node m1 = 1" "deref h1 (root_node m1) = Some nd1"
      "nVisits nd1 = nVisits (sampleTree ! 1)" "quality nd1 = quality (sampleTree ! 1)"
      "isRoot nd1" "state m1 = snd (plays (state sampleMCTS) \<lparr>actionX = 1, actionY = 2\<rparr>)"
    by blast
  from t2 c(3) obtain h2 m2 nd2 where
    b: "updateWithMove sampleTree sampleMCTS \<lparr>actionX = 9, actionY = 9\<rparr> = Some (h2, m2)"
      "deref h2 (root_node m2) = Some nd2" "nVisits nd2 = 0" "isRoot nd2"
      "state m2 = snd (plays (state sampleMCTS) \<lparr>actionX = 9, actionY = 9\<rparr>)"
    by blast
  from a n p(1) have "updateWithMove sampleTree sampleMCTS \<lparr>actionX = 1, actionY = 2\<rparr> = Some (h1, m1)
         \<and> root_node m1 = 1 \<and> deref h1 (root_node m1) = Some nd1
         \<and> nVisits nd1 = 7 \<and> quality nd1 = Fin (1 / 4) \<and> isRoot nd1
         \<and> totalPieces (state m1) = 1"
    by simp
  moreover from b p(2) have "updateWithMove sampleTree sampleMCTS \<lparr>actionX = 9, actionY = 9\<rparr> = Some (h2, m2)
         \<and> deref h2 (root_node m2) = Some nd2 \<and> nVisits nd2 = 0 \<and> isRoot nd2
         \<and> totalPieces (state m2) = 1"
    by simp
  ultimately show ?thesis
    using r by blast
qed

section \<open>The final selection on a root without children\<close>

text \<open>
  C10. Whatever the search loop did, if it leaves a root without children then
  \<open>getNextMove\<close> returns the action (0, 0).
\<close>

theorem getNextMove_no_children:
  assumes "searchLoop h m = Some (h1, m1)"
    and "deref h1 (root_node m1) = Some rt"
    and "children rt = []"
  shows "getNextMove lg searchLoop h m = Some \<lparr>actionX = 0, actionY = 0\<rparr>"
  using assms by (simp add: getNextMove_def select_def)

theorem getNextMove_no_children_witness:
  "deref (fst (MCTS_new [] (Fin (1 / 2)) 1000)) (root_node (snd (MCTS_new [] (Fin (1 / 2)) 1000)))
     = Some (MCTSNode_new None (Fin 1) False)
   \<and> children (MCTSNode_new None (Fin 1) False) = []
   \<and> getNextMove log_rounded (\<lambda>h m. Some (h, m))
        (fst (MCTS_new [] (Fin (1 / 2)) 1000)) (snd (MCTS_new [] (Fin (1 / 2)) 1000))
       = Some \<lparr>actionX = 0, actionY = 0\<rparr>"
proof -
  let ?h = "fst (MCTS_new [] (Fin (1 / 2)) 1000)" and ?m = "snd (MCTS_new [] (Fin (1 / 2)) 1000)"
  have l: "(\<lambda>h m. Some (h, m)) ?h ?m = Some (?h, ?m)"
    by simp
  have d: "deref ?h (root_node ?m) = Some (MCTSNode_new None (Fin 1) False)"
    by (simp add: MCTS_new_def deref_def)
  have c: "children (MCTSNode_new None (Fin 1) False) = []"
    by (simp add: MCTSNode_new_def)
  from getNextMove_no_children [of "\<lambda>h m. Some (h, m)" ?h ?m ?h ?m _ log_rounded, OF l d c] d c
  show ?thesis
    by simp
qed

section \<open>The evaluation score\<close>











end
